theory Spec2Isabelle
  imports Main "HOL-Library.Word"
begin

unbundle bit_operations_syntax

section \<open>Storage layout of the bit-vector (64-bit-pointer platform)\<close>

text \<open>
  The model follows \<^verbatim>\<open>bvec.hpp\<close> for \<^verbatim>\<open>__SIZEOF_POINTER__ == 8\<close>: a block is a
  64-bit word, the inline payload is a 120-bit field of a 128-bit value, and the packed
  size and capacity fields are 7, 35 and 28 bits wide. Values of type \<^verbatim>\<open>size_type\<close>
  are natural numbers below \<open>2 ^ 64\<close>; where the source's arithmetic can wrap, the
  reduction modulo \<open>2 ^ 64\<close> is written out.
\<close>

type_synonym block_type = "64 word"
type_synonym stack_data_type = "128 word"

definition block_digits :: nat where
  "block_digits = 64"

definition block_mask :: block_type where
  "block_mask = NOT 0"

definition block_round :: "nat \<Rightarrow> nat" where
  "block_round x = ((x + (block_digits - 1)) mod 2 ^ 64) div block_digits"

definition stack_capacity :: nat where
  "stack_capacity = 128 - 8"

definition stack_size_mask :: nat where
  "stack_size_mask = 2 ^ 7 - 1"

definition stack_data_mask :: stack_data_type where
  "stack_data_mask = push_bit stack_capacity 1 - 1"

definition heap_size_mask :: nat where
  "heap_size_mask = 2 ^ 35 - 1"

definition heap_capacity_max :: nat where
  "heap_capacity_max = 2 ^ 28"

definition heap_capacity_mask :: nat where
  "heap_capacity_mask = heap_capacity_max - 1"

text \<open>
  The union \<^verbatim>\<open>m_data\<close> with its discriminant bit \<^verbatim>\<open>is_heap\<close>: either the inline
  \<^verbatim>\<open>stack_type\<close> (size, data) or the \<^verbatim>\<open>heap_type\<close> (size, capacity in blocks, and the
  buffer the pointer refers to, a list as long as the allocation).
\<close>

datatype bvec =
    Stack (stack_size: "7 word") (stack_data: "120 word")
  | Heap (heap_size: "35 word") (heap_capacity: "28 word") (heap_pointer: "block_type list")

text \<open>Undefined behaviour of the source is a value of the model.\<close>

datatype error = OutOfBounds | ShiftTooWide | SignedOverflow

definition bind :: "error + 'a \<Rightarrow> ('a \<Rightarrow> error + 'b) \<Rightarrow> error + 'b" where
  "bind m f = (case m of Inl e \<Rightarrow> Inl e | Inr x \<Rightarrow> f x)"

definition rd :: "block_type list \<Rightarrow> nat \<Rightarrow> error + block_type" where
  "rd p i = (if i < length p then Inr (p ! i) else Inl OutOfBounds)"

definition wr :: "block_type list \<Rightarrow> nat \<Rightarrow> block_type \<Rightarrow> error + block_type list" where
  "wr p i w = (if i < length p then Inr (p[i := w]) else Inl OutOfBounds)"

definition shl :: "'a::len word \<Rightarrow> int \<Rightarrow> error + 'a word" where
  "shl w n = (if 0 \<le> n \<and> n < int LENGTH('a) then Inr (push_bit (nat n) w) else Inl ShiftTooWide)"

definition shr :: "'a::len word \<Rightarrow> int \<Rightarrow> error + 'a word" where
  "shr w n = (if 0 \<le> n \<and> n < int LENGTH('a) then Inr (drop_bit (nat n) w) else Inl ShiftTooWide)"

text \<open>\<^verbatim>\<open>static_cast<size_type>\<close> of a signed position, and \<^verbatim>\<open>size_type\<close> subtraction.\<close>

definition to_size :: "int \<Rightarrow> nat" where
  "to_size i = nat (i mod 2 ^ 64)"

definition sub64 :: "nat \<Rightarrow> nat \<Rightarrow> nat" where
  "sub64 a b = (a + 2 ^ 64 - b mod 2 ^ 64) mod 2 ^ 64"

text \<open>
  The allocator returns a buffer whose contents are indeterminate. The model fills it with
  a fixed pattern that is neither all zeros nor all ones, so that no fill value is met by
  accident.
\<close>

definition uninit :: block_type where
  "uninit = 0xCDCDCDCDCDCDCDCD"

definition allocate :: "nat \<Rightarrow> block_type list" where
  "allocate n = replicate n uninit"

text \<open>\<^verbatim>\<open>__builtin_memcpy(dst, &src[from], n * sizeof(block_type))\<close> on whole blocks.\<close>

definition memcpy_words :: "block_type list \<Rightarrow> block_type list \<Rightarrow> nat \<Rightarrow> nat \<Rightarrow> error + block_type list" where
  "memcpy_words dst src from n =
     (if from + n \<le> length src \<and> n \<le> length dst
      then Inr (take n (drop from src) @ drop n dst)
      else Inl OutOfBounds)"

text \<open>
  The byte image of the buffer, least significant byte first (the layout of the x86-64 and
  AArch64 targets), for the byte-granular copy of the range erase and for
  \<^verbatim>\<open>reinterpret_cast\<close> in \<^verbatim>\<open>bvec_cast\<close>.
\<close>

definition word_bytes :: "block_type \<Rightarrow> 8 word list" where
  "word_bytes w = map (\<lambda>k. ucast (drop_bit (8 * k) w)) [0..<8]"

definition bytes_word :: "8 word list \<Rightarrow> block_type" where
  "bytes_word bs = horner_sum ucast (2 ^ 8) bs"

definition to_bytes :: "block_type list \<Rightarrow> 8 word list" where
  "to_bytes p = concat (map word_bytes p)"

function from_bytes :: "8 word list \<Rightarrow> block_type list" where
  "from_bytes bs = (if length bs < 8 then [] else bytes_word (take 8 bs) # from_bytes (drop 8 bs))"
  by pat_completeness auto
termination
  by (relation "measure length") auto

text \<open>
  \<^verbatim>\<open>__builtin_memcpy(&data8[dst], &data8[src], n)\<close> inside one buffer. The two ranges may
  overlap; the model copies through a temporary, which is what a forward copy does when
  \<open>dst \<le> src\<close>.
\<close>

definition memcpy_bytes :: "block_type list \<Rightarrow> nat \<Rightarrow> nat \<Rightarrow> nat \<Rightarrow> error + block_type list" where
  "memcpy_bytes p dst src n =
     (let bs = to_bytes p
      in if src + n \<le> length bs \<and> dst + n \<le> length bs
         then Inr (from_bytes (take dst bs @ take n (drop src bs) @ drop (dst + n) bs))
         else Inl OutOfBounds)"

definition is_heap :: "bvec \<Rightarrow> bool" where
  "is_heap c = (case c of Stack _ _ \<Rightarrow> False | Heap _ _ _ \<Rightarrow> True)"

definition size_bvec :: "bvec \<Rightarrow> nat" where
  "size_bvec c = (case c of Heap sz _ _ \<Rightarrow> unat sz | Stack sz _ \<Rightarrow> unat sz)"

definition capacity :: "bvec \<Rightarrow> nat" where
  "capacity c = (case c of Heap _ cap _ \<Rightarrow> unat cap * block_digits | Stack _ _ \<Rightarrow> stack_capacity)"

definition get_at :: "bvec \<Rightarrow> nat \<Rightarrow> error + bool" where
  "get_at c pos = (case c of
     Heap _ _ p \<Rightarrow>
       (let word = pos div block_digits; offset = pos mod block_digits
        in bind (rd p word) (\<lambda>w. Inr (w AND push_bit offset 1 \<noteq> 0)))
   | Stack _ d \<Rightarrow>
       bind (shl (1 :: stack_data_type) (int pos)) (\<lambda>m. Inr (ucast d AND m \<noteq> 0)))"

function flip_words :: "nat \<Rightarrow> nat \<Rightarrow> block_type list \<Rightarrow> error + block_type list" where
  "flip_words ii words p =
     (if ii < words
      then bind (rd p ii) (\<lambda>prev. bind (wr p ii (NOT prev)) (flip_words (ii + 1) words))
      else Inr p)"
  by pat_completeness auto
termination
  by (relation "measure (\<lambda>(ii, words, p). words - ii)") auto

definition flip :: "bvec \<Rightarrow> error + bvec" where
  "flip c = (case c of
     Heap sz cap p \<Rightarrow>
       (let words = block_round (unat sz)
        in bind (flip_words 0 words p) (\<lambda>p'. Inr (Heap sz cap p')))
   | Stack sz d \<Rightarrow> Inr (Stack sz (ucast (NOT (ucast d :: stack_data_type)))))"

text \<open>
  The invariant \<open>size \<le> capacity\<close>; in heap mode the capacity field counts the blocks of
  the buffer.
\<close>

definition valid :: "bvec \<Rightarrow> bool" where
  "valid c = (case c of
     Stack sz _ \<Rightarrow> unat sz \<le> stack_capacity
   | Heap sz cap p \<Rightarrow> unat cap = length p \<and> unat sz \<le> unat cap * block_digits)"


text \<open>The bit stored at a position, read straight from the representation.\<close>

definition test_bit :: "bvec \<Rightarrow> nat \<Rightarrow> bool" where
  "test_bit c i = (case c of
     Heap _ _ p \<Rightarrow> bit (p ! (i div block_digits)) (i mod block_digits)
   | Stack _ d \<Rightarrow> bit d i)"

section \<open>Element access\<close>

definition set_at :: "nat \<Rightarrow> bool \<Rightarrow> bvec \<Rightarrow> error + bvec" where
  "set_at pos value c = (case c of
     Heap sz cap p \<Rightarrow>
       (let word = pos div block_digits; offset = pos mod block_digits
        in bind (rd p word) (\<lambda>w.
           bind (wr p word (if value then w OR push_bit offset 1 else w AND NOT (push_bit offset 1))) (\<lambda>p'.
           Inr (Heap sz cap p'))))
   | Stack sz d \<Rightarrow>
       bind (shl (1 :: stack_data_type) (int pos)) (\<lambda>m.
       Inr (Stack sz (ucast (if value then ucast d OR m else ucast d AND NOT m)))))"

section \<open>Capacity and growth\<close>

text \<open>The loop \<^verbatim>\<open>for (auto ii = tailWord; ii < words; ++ii) pointer[ii] = fill;\<close>\<close>

function fill_words :: "nat \<Rightarrow> nat \<Rightarrow> block_type \<Rightarrow> block_type list \<Rightarrow> error + block_type list" where
  "fill_words ii words fill p =
     (if ii < words then bind (wr p ii fill) (fill_words (ii + 1) words fill) else Inr p)"
  by pat_completeness auto
termination
  by (relation "measure (\<lambda>(ii, words, fill, p). words - ii)") auto

text \<open>
  \<^verbatim>\<open>pointer[tailWord] |= (block_mask << tailSize)\<close> when the fill value is set,
  \<^verbatim>\<open>pointer[tailWord] &= ~(block_mask << tailSize)\<close> when it is clear.
\<close>

definition fill_tail :: "bool \<Rightarrow> nat \<Rightarrow> nat \<Rightarrow> block_type list \<Rightarrow> error + block_type list" where
  "fill_tail value tailWord tailSize p =
     bind (rd p tailWord) (\<lambda>w.
       wr p tailWord (if value then w OR push_bit tailSize block_mask
                      else w AND NOT (push_bit tailSize block_mask)))"

definition resize_heap :: "nat \<Rightarrow> bool \<Rightarrow> 35 word \<Rightarrow> 28 word \<Rightarrow> block_type list \<Rightarrow> error + bvec" where
  "resize_heap count value sz cap p =
     (let words = block_round count in
      if words > unat cap then
        bind (memcpy_words (allocate words) p 0 (unat cap)) (\<lambda>pointer.
          let tailWord = unat sz div block_digits;
              tailSize = unat sz mod block_digits;
              sz' = of_nat (count AND heap_size_mask);
              cap' = of_nat (words AND heap_capacity_mask)
          in bind (if tailSize \<noteq> 0
                   then bind (fill_tail value tailWord tailSize pointer) (\<lambda>p'. Inr (p', tailWord + 1))
                   else Inr (pointer, tailWord)) (\<lambda>(p', tailWord').
             let fill = (if value then block_mask else 0)
             in bind (fill_words tailWord' words fill p') (\<lambda>p''.
                Inr (Heap sz' cap' p''))))
      else
        bind (if count > unat sz
              then (let tailWord = unat sz div block_digits;
                        tailSize = unat sz mod block_digits
                    in fill_tail value tailWord tailSize p)
              else Inr p) (\<lambda>p'.
        Inr (Heap (of_nat (count AND heap_size_mask)) cap p')))"

definition grow_to_heap :: "nat \<Rightarrow> bool \<Rightarrow> 7 word \<Rightarrow> 120 word \<Rightarrow> error + bvec" where
  "grow_to_heap count value sz d =
     (let words = block_round count;
          tailWord = unat sz div block_digits;
          tailSize = unat sz mod block_digits;
          pointer = allocate words;
          data = (ucast d :: stack_data_type)
      in bind (if tailWord \<noteq> 0 then wr pointer 0 (ucast (data AND ucast block_mask)) else Inr pointer) (\<lambda>p1.
         bind (if tailSize \<noteq> 0
               then bind (wr p1 tailWord
                            (if value
                             then ucast (ucast (push_bit tailSize block_mask) OR (drop_bit block_digits data AND ucast block_mask))
                             else ucast (drop_bit block_digits data AND ucast block_mask))) (\<lambda>p2.
                    Inr (p2, tailWord + 1))
               else Inr (p1, tailWord)) (\<lambda>(p2, tailWord').
         let fill = (if value then block_mask else 0)
         in bind (fill_words tailWord' words fill p2) (\<lambda>p3.
            Inr (Heap (of_nat (count AND heap_size_mask)) (of_nat (words AND heap_capacity_mask)) p3)))))"

definition resize_stack :: "nat \<Rightarrow> bool \<Rightarrow> 7 word \<Rightarrow> 120 word \<Rightarrow> bvec" where
  "resize_stack count value sz d =
     (let d' = (if count > unat sz
                then (let data = (ucast d :: stack_data_type);
                          data' = (if value then data OR push_bit (unat sz) stack_data_mask
                                   else data AND NOT (push_bit (unat sz) stack_data_mask))
                      in ucast (data' AND stack_data_mask))
                else d)
      in Stack (of_nat (count AND stack_size_mask)) d')"

definition resize :: "nat \<Rightarrow> bool \<Rightarrow> bvec \<Rightarrow> error + bvec" where
  "resize count value c = (case c of
     Heap sz cap p \<Rightarrow> resize_heap count value sz cap p
   | Stack sz d \<Rightarrow>
       if count > stack_capacity then grow_to_heap count value sz d
       else Inr (resize_stack count value sz d))"

text \<open>
  \<^verbatim>\<open>assign(count, value)\<close>: release the buffer, reset to the empty inline state, resize.
\<close>

definition assign_fill :: "nat \<Rightarrow> bool \<Rightarrow> bvec \<Rightarrow> error + bvec" where
  "assign_fill count value c = resize count value (Stack 0 0)"

section \<open>Erasing\<close>

text \<open>Iterators are positions \<^verbatim>\<open>m_pos\<close> of type \<^verbatim>\<open>difference_type\<close> into their owner.\<close>

definition begin_pos :: "bvec \<Rightarrow> int" where
  "begin_pos c = 0"

text \<open>\<^verbatim>\<open>end()\<close> narrows the size to \<^verbatim>\<open>int\<close> first: \<^verbatim>\<open>static_cast<int>(size())\<close>.\<close>

definition end_pos :: "bvec \<Rightarrow> int" where
  "end_pos c = sint (word_of_nat (size_bvec c) :: 32 word)"

definition carry_bit :: block_type where
  "carry_bit = push_bit (block_digits - 1) 1"

text \<open>
  The carry loop of the single-position erase, from the word holding the last bit down
  to the word above the one holding \<open>pos\<close>.
\<close>

function erase_shift :: "nat \<Rightarrow> nat \<Rightarrow> bool \<Rightarrow> block_type list \<Rightarrow> error + (bool \<times> block_type list)" where
  "erase_shift lastWord posWord carry p =
     (if lastWord > posWord
      then bind (rd p lastWord) (\<lambda>w.
             bind (wr p lastWord (drop_bit 1 w OR (if carry then carry_bit else 0)))
               (erase_shift (lastWord - 1) posWord (w AND 1 \<noteq> 0)))
      else Inr (carry, p))"
  by pat_completeness auto
termination
  by (relation "measure (\<lambda>(lastWord, posWord, carry, p). lastWord)") auto

text \<open>
  \<^verbatim>\<open>erase(pos)\<close>, with \<open>pos\<close> the \<^verbatim>\<open>m_pos\<close> of the iterator. The iterator it returns
  sits at the same position and is not part of the result here.
\<close>

definition erase :: "int \<Rightarrow> bvec \<Rightarrow> error + bvec" where
  "erase pos c = (case c of
     Heap sz cap p \<Rightarrow>
       (let posWord = to_size pos div block_digits;
            posWordSize = to_size pos mod block_digits;
            lastWord = unat sz div block_digits
        in bind (erase_shift lastWord posWord False p) (\<lambda>(carry, p1).
           bind (rd p1 posWord) (\<lambda>w.
           bind (shr w (int posWordSize + 1)) (\<lambda>upper.
           let lower = w AND (push_bit posWordSize 1 - 1)
           in bind (wr p1 posWord ((if carry then carry_bit else 0) OR push_bit posWordSize upper OR lower)) (\<lambda>p2.
              Inr (Heap sz cap p2))))))
   | Stack sz d \<Rightarrow>
       (let data = (ucast d :: stack_data_type)
        in bind (shr data (pos + 1)) (\<lambda>upper.
           bind (shl 1 pos) (\<lambda>one.
           let lower = data AND (one - 1)
           in bind (shl upper pos) (\<lambda>shifted.
              Inr (Stack (sz - 1) (ucast ((shifted OR lower) AND stack_data_mask))))))))"

text \<open>
  The word-by-word loop of the range erase:
  \<^verbatim>\<open>data[firstBlock + ii] = (data[lastBlock + ii] >> lastBit) | (data[lastBlock + ii + 1] << (block_digits - lastBit))\<close>
  for \<open>ii < blockSpan\<close>.
\<close>

function erase_blocks :: "nat \<Rightarrow> nat \<Rightarrow> nat \<Rightarrow> nat \<Rightarrow> nat \<Rightarrow> block_type list \<Rightarrow> error + block_type list" where
  "erase_blocks ii blockSpan firstBlock lastBlock lastBit p =
     (if ii < blockSpan
      then bind (rd p (lastBlock + ii)) (\<lambda>lo.
           bind (rd p (lastBlock + ii + 1)) (\<lambda>hi.
           bind (shl hi (int block_digits - int lastBit)) (\<lambda>hi'.
           bind (wr p (firstBlock + ii) (drop_bit lastBit lo OR hi'))
             (erase_blocks (ii + 1) blockSpan firstBlock lastBlock lastBit))))
      else Inr p)"
  by pat_completeness auto
termination
  by (relation "measure (\<lambda>(ii, blockSpan, firstBlock, lastBlock, lastBit, p). blockSpan - ii)") auto

text \<open>
  The first phase of the heap range erase folds the word of \<open>last\<close> into the word of
  \<open>first\<close>; it returns the buffer and the updated \<open>firstBlock\<close>, \<open>firstBit\<close>,
  \<open>lastBlock\<close>, \<open>lastBit\<close>.
\<close>

definition erase_first_block ::
  "35 word \<Rightarrow> nat \<Rightarrow> nat \<Rightarrow> nat \<Rightarrow> nat \<Rightarrow> block_type list \<Rightarrow> error + (block_type list \<times> nat \<times> nat \<times> nat \<times> nat)" where
  "erase_first_block sz firstBlock firstBit lastBlock lastBit p =
     (if firstBlock = lastBlock then
        (let upperMask = push_bit lastBit block_mask;
             lowerMask = push_bit firstBit 1 - 1;
             endBlock = block_round (unat sz)
         in bind (rd p firstBlock) (\<lambda>w.
            bind (shr (w AND upperMask) (int (sub64 lastBit firstBit))) (\<lambda>upper.
            bind (wr p firstBlock ((w AND lowerMask) OR upper)) (\<lambda>p1.
            let lastBlock' = lastBlock + 1
            in bind (if lastBlock' < endBlock
                     then bind (rd p1 firstBlock) (\<lambda>w1.
                          bind (rd p1 lastBlock') (\<lambda>w2.
                          bind (shl w2 (int (sub64 (sub64 block_digits lastBit) firstBit))) (\<lambda>w2'.
                          wr p1 firstBlock (w1 OR w2'))))
                     else Inr p1) (\<lambda>p2.
               Inr (p2, firstBlock + 1, 0, lastBlock', (lastBit + block_digits - firstBit) mod block_digits))))))
      else if firstBit \<noteq> 0 then
        (let lowerMask = push_bit firstBit 1 - 1;
             endBlock = block_round (unat sz)
         in bind (rd p firstBlock) (\<lambda>wf.
            bind (rd p lastBlock) (\<lambda>wl.
            bind (wr p firstBlock ((wf AND lowerMask) OR push_bit firstBit (drop_bit lastBit wl))) (\<lambda>p1.
            let lastBlock' = lastBlock + 1
            in bind (if firstBit < lastBit \<and> lastBlock' < endBlock
                     then bind (rd p1 firstBlock) (\<lambda>w1.
                          bind (rd p1 lastBlock') (\<lambda>w2.
                          bind (shl w2 (int (sub64 (firstBit + block_digits) lastBit))) (\<lambda>w2'.
                          wr p1 firstBlock (w1 OR w2'))))
                     else Inr p1) (\<lambda>p2.
               Inr (p2, firstBlock + 1, 0, lastBlock', (lastBit + block_digits - firstBit) mod block_digits))))))
      else Inr (p, firstBlock, firstBit, lastBlock, lastBit))"

text \<open>The second phase: the byte-aligned bulk copy, or the word-by-word shift.\<close>

definition erase_remaining ::
  "35 word \<Rightarrow> nat \<Rightarrow> nat \<Rightarrow> nat \<Rightarrow> nat \<Rightarrow> block_type list \<Rightarrow> error + block_type list" where
  "erase_remaining sz firstBlock firstBit lastBlock lastBit p =
     (let firstByteAlign = firstBit mod 8;
          lastByteAlign = lastBit mod 8
      in if firstByteAlign = 0 \<and> lastByteAlign = 0 then
           (let firstByte = firstBlock * 8 + firstBit div 8;
                lastByte = lastBlock * 8 + lastBit div 8;
                endByte = (unat sz + 7) div 8;
                numBytes = sub64 endByte lastByte
            in memcpy_bytes p firstByte lastByte numBytes)
         else if lastBlock > firstBlock then
           (let blockSpan = lastBlock - firstBlock
            in bind (erase_blocks 0 blockSpan firstBlock lastBlock lastBit p) (\<lambda>p1.
               bind (rd p1 (lastBlock + blockSpan)) (\<lambda>w.
               wr p1 (firstBlock + blockSpan) (drop_bit lastBit w))))
         else Inr p)"

text \<open>
  \<^verbatim>\<open>erase(first, last)\<close>; the parameter \<open>last'\<close> stands for \<^verbatim>\<open>last.m_pos\<close>. The heap
  branch compares \<^verbatim>\<open>last.m_pos\<close> with the size as unsigned values, the inline branch as
  signed ones (the 7-bit size field promotes to \<^verbatim>\<open>int\<close>).
\<close>

definition erase_range :: "int \<Rightarrow> int \<Rightarrow> bvec \<Rightarrow> error + bvec" where
  "erase_range first last' c = (case c of
     Heap sz cap p \<Rightarrow>
       if to_size last' > unat sz
       then Inr (Heap (of_nat (to_size first AND heap_size_mask)) cap p)
       else
         (let firstBlock = to_size first div block_digits;
              firstBit = to_size first mod block_digits;
              lastBlock = to_size last' div block_digits;
              lastBit = to_size last' mod block_digits
          in bind (erase_first_block sz firstBlock firstBit lastBlock lastBit p)
               (\<lambda>(p1, firstBlock', firstBit', lastBlock', lastBit').
             bind (erase_remaining sz firstBlock' firstBit' lastBlock' lastBit' p1) (\<lambda>p2.
             Inr (Heap (of_nat (sub64 (unat sz) (to_size (last' - first)) AND heap_size_mask)) cap p2))))
   | Stack sz d \<Rightarrow>
       if last' > int (unat sz)
       then Inr (Stack (of_nat (to_size first AND stack_size_mask)) d)
       else
         (let start = to_size first;
              end = to_size last';
              data = (ucast d :: stack_data_type)
          in bind (shl 1 (int start)) (\<lambda>one.
             let lower = data AND (one - 1)
             in bind (shr data (int end)) (\<lambda>upper.
                bind (shl upper (int start)) (\<lambda>shifted.
                Inr (Stack (of_nat (sub64 (unat sz) (sub64 end start) AND stack_size_mask))
                           (ucast ((shifted OR lower) AND stack_data_mask))))))))"

section \<open>Assignment from a slice of another bit-vector\<close>

text \<open>
  \<^verbatim>\<open>assign(first, last)\<close> for iterators of the bit-vector type: \<open>other\<close> is the owner of
  the two iterators, \<open>c\<close> the vector assigned to (its buffer is released, its contents
  are not read).
\<close>

definition assign :: "bvec \<Rightarrow> int \<Rightarrow> int \<Rightarrow> bvec \<Rightarrow> error + bvec" where
  "assign other first last' c = (case other of
     Heap osz ocap opointer \<Rightarrow>
       (let begin = to_size first;
            end = to_size last';
            beginWord = begin div block_digits;
            beginBit = begin mod block_digits;
            endWord = block_round end;
            endBit = end mod block_digits;
            words = sub64 endWord beginWord
        in bind (memcpy_words (allocate words) opointer beginWord words) (\<lambda>pointer.
           let this = Heap (of_nat (sub64 ((words * block_digits) mod 2 ^ 64) endBit AND heap_size_mask))
                           (of_nat (words AND heap_capacity_mask)) pointer
           in erase_range (begin_pos this) (begin_pos this + sint (word_of_nat beginBit :: 32 word)) this))
   | Stack osz odata \<Rightarrow>
       bind (shr (ucast odata :: stack_data_type) first) (\<lambda>data.
       Inr (Stack (of_nat (to_size (last' - first) AND stack_size_mask)) (ucast data))))"

text \<open>The copy constructor: \<^verbatim>\<open>m_data{}\<close>, then \<^verbatim>\<open>assign(other.cbegin(), other.cend())\<close>.\<close>

definition copy :: "bvec \<Rightarrow> error + bvec" where
  "copy other = assign other (begin_pos other) (end_pos other) (Stack 0 0)"

section \<open>Comparison\<close>

text \<open>
  \<^verbatim>\<open>operator==\<close> counts with \<^verbatim>\<open>auto ii = 0u\<close>, a 32-bit counter compared against a
  size of up to 35 bits, so the loop need not end.
\<close>

partial_function (option) eq_loop :: "bvec \<Rightarrow> bvec \<Rightarrow> 32 word \<Rightarrow> (error + bool) option" where
  "eq_loop lhs rhs ii =
     (if unat ii < size_bvec lhs
      then (case get_at lhs (unat ii) of
              Inl e \<Rightarrow> Some (Inl e)
            | Inr a \<Rightarrow>
                (case get_at rhs (unat ii) of
                   Inl e \<Rightarrow> Some (Inl e)
                 | Inr b \<Rightarrow> if a \<noteq> b then Some (Inr False) else eq_loop lhs rhs (ii + 1)))
      else Some (Inr True))"

definition operator_eq :: "bvec \<Rightarrow> bvec \<Rightarrow> (error + bool) option" where
  "operator_eq lhs rhs =
     (if size_bvec lhs \<noteq> size_bvec rhs then Some (Inr False) else eq_loop lhs rhs 0)"

datatype weak_ordering = Less | Equivalent | Greater

text \<open>The three loops of \<^verbatim>\<open>operator<=>\<close>, last first.\<close>

function cmp_msb :: "bvec \<Rightarrow> bvec \<Rightarrow> nat \<Rightarrow> error + weak_ordering" where
  "cmp_msb lhs rhs lhsSize =
     (if lhsSize \<noteq> 0
      then bind (get_at lhs (lhsSize - 1)) (\<lambda>a.
           bind (get_at rhs (lhsSize - 1)) (\<lambda>b.
           if a > b then Inr Greater
           else if a < b then Inr Less
           else cmp_msb lhs rhs (lhsSize - 1)))
      else Inr Equivalent)"
  by pat_completeness auto
termination
  by (relation "measure (\<lambda>(lhs, rhs, lhsSize). lhsSize)") auto

function cmp_rhs_tail :: "bvec \<Rightarrow> bvec \<Rightarrow> nat \<Rightarrow> nat \<Rightarrow> error + weak_ordering" where
  "cmp_rhs_tail lhs rhs lhsSize rhsSize =
     (if rhsSize > lhsSize
      then bind (get_at rhs (rhsSize - 1)) (\<lambda>b.
           if b then Inr Less else cmp_rhs_tail lhs rhs lhsSize (rhsSize - 1))
      else cmp_msb lhs rhs lhsSize)"
  by pat_completeness auto
termination
  by (relation "measure (\<lambda>(lhs, rhs, lhsSize, rhsSize). rhsSize)") auto

function cmp_lhs_tail :: "bvec \<Rightarrow> bvec \<Rightarrow> nat \<Rightarrow> nat \<Rightarrow> error + weak_ordering" where
  "cmp_lhs_tail lhs rhs lhsSize rhsSize =
     (if lhsSize > rhsSize
      then bind (get_at lhs (lhsSize - 1)) (\<lambda>a.
           if a then Inr Greater else cmp_lhs_tail lhs rhs (lhsSize - 1) rhsSize)
      else cmp_rhs_tail lhs rhs lhsSize rhsSize)"
  by pat_completeness auto
termination
  by (relation "measure (\<lambda>(lhs, rhs, lhsSize, rhsSize). lhsSize)") auto

definition operator_cmp :: "bvec \<Rightarrow> bvec \<Rightarrow> error + weak_ordering" where
  "operator_cmp lhs rhs = cmp_lhs_tail lhs rhs (size_bvec lhs) (size_bvec rhs)"

section \<open>Cast, hash and the free erase functions\<close>

text \<open>
  \<^verbatim>\<open>bvec_cast<T>\<close> for an unsigned \<open>T\<close> of \<open>LENGTH('a)\<close> bits. In heap mode the buffer
  is read as an array of \<open>T\<close>: element \<open>pos\<close> starts at bit \<open>pos * LENGTH('a)\<close> of
  the byte image.
\<close>

definition bvec_cast :: "bvec \<Rightarrow> nat \<Rightarrow> error + 'a::len word" where
  "bvec_cast c pos =
     (let digits = LENGTH('a);
          lastWord = size_bvec c div digits
      in bind (if pos = lastWord
               then (let bits = size_bvec c mod digits
                     in shr block_mask (int (sub64 64 bits)))
               else Inr block_mask) (\<lambda>mask.
         case c of
           Heap _ _ p \<Rightarrow>
             bind (rd p (pos * digits div block_digits)) (\<lambda>w.
             let elem = (ucast (drop_bit (pos * digits mod block_digits) w) :: 'a word)
             in Inr (ucast ((ucast elem :: block_type) AND mask)))
         | Stack _ d \<Rightarrow>
             (let shift = (pos * digits) mod 2 ^ 64
              in bind (shr (ucast d :: stack_data_type) (int shift)) (\<lambda>x.
                 Inr (ucast (x AND ucast mask))))))"

definition builtin_popcount :: "32 word \<Rightarrow> int" where
  "builtin_popcount w = int (length (filter (bit w) [0..<32]))"

function popcount_loop :: "nat \<Rightarrow> nat \<Rightarrow> bvec \<Rightarrow> int \<Rightarrow> error + int" where
  "popcount_loop ii lastWord c popCount =
     (if ii < lastWord
      then bind (bvec_cast c ii) (\<lambda>w.
           let popCount' = popCount + builtin_popcount w
           in if popCount' < 2 ^ 31 then popcount_loop (ii + 1) lastWord c popCount'
              else Inl SignedOverflow)
      else Inr popCount)"
  by pat_completeness auto
termination
  by (relation "measure (\<lambda>(ii, lastWord, c, popCount). lastWord - ii)") auto

text \<open>\<^verbatim>\<open>std::erase(c, value)\<close>: the new contents and the returned count.\<close>

definition std_erase :: "bool \<Rightarrow> bvec \<Rightarrow> error + (bvec \<times> nat)" where
  "std_erase value c =
     (let digits = 64;
          lastWord = (size_bvec c + digits - 1) div digits
      in bind (popcount_loop 0 lastWord c 0) (\<lambda>popCount.
         if value
         then bind (assign_fill (sub64 (size_bvec c) (to_size popCount)) False c) (\<lambda>c'.
              Inr (c', to_size popCount))
         else (let removed = sub64 (size_bvec c) (to_size popCount)
               in bind (assign_fill (to_size popCount) True c) (\<lambda>c'.
                  Inr (c', removed)))))"

text \<open>
  \<^verbatim>\<open>std::erase_if(c, pred)\<close>. The loop runs until the iterator meets \<^verbatim>\<open>c.end()\<close>;
  not returning is the value \<open>None\<close>.
\<close>

partial_function (option) erase_if_loop :: "(bool \<Rightarrow> bool) \<Rightarrow> bvec \<Rightarrow> int \<Rightarrow> (error + bvec) option" where
  "erase_if_loop pred c iter =
     (if iter \<noteq> end_pos c
      then (case get_at c (to_size iter) of
              Inl e \<Rightarrow> Some (Inl e)
            | Inr b \<Rightarrow>
                if pred b
                then (case erase iter c of
                        Inl e \<Rightarrow> Some (Inl e)
                      | Inr c' \<Rightarrow> erase_if_loop pred c' iter)
                else erase_if_loop pred c (iter + 1))
      else Some (Inr c))"

definition std_erase_if :: "(bool \<Rightarrow> bool) \<Rightarrow> bvec \<Rightarrow> (error + (bvec \<times> nat)) option" where
  "std_erase_if pred c =
     (let startSize = size_bvec c
      in case erase_if_loop pred c (begin_pos c) of
           None \<Rightarrow> None
         | Some (Inl e) \<Rightarrow> Some (Inl e)
         | Some (Inr c') \<Rightarrow> Some (Inr (c', sub64 startSize (size_bvec c'))))"

function hash_loop :: "nat \<Rightarrow> nat \<Rightarrow> bvec \<Rightarrow> 64 word \<Rightarrow> error + 64 word" where
  "hash_loop ii lastWord key result =
     (if ii < lastWord
      then bind (bvec_cast key ii) (\<lambda>w.
           hash_loop (ii + 1) lastWord key (result * of_nat block_digits + w))
      else Inr result)"
  by pat_completeness auto
termination
  by (relation "measure (\<lambda>(ii, lastWord, key, result). lastWord - ii)") auto

definition hash :: "bvec \<Rightarrow> error + 64 word" where
  "hash key =
     (let digits = 64;
          lastWord = (size_bvec key + digits - 1) div digits
      in hash_loop 0 lastWord key (of_nat (size_bvec key)))"


text \<open>
  The number a bit-vector denotes, position 0 least significant, read through \<open>get_at\<close>.
\<close>

definition bit_weight :: "bvec \<Rightarrow> nat \<Rightarrow> nat" where
  "bit_weight c i = (if get_at c i = Inr True then 2 ^ i else 0)"

definition value_of :: "bvec \<Rightarrow> nat" where
  "value_of c = (\<Sum>i < size_bvec c. bit_weight c i)"

definition three_way :: "nat \<Rightarrow> nat \<Rightarrow> weak_ordering" where
  "three_way x y = (if x < y then Less else if x > y then Greater else Equivalent)"

text \<open>The value of the lowest \<open>n\<close> positions.\<close>

definition value_upto :: "bvec \<Rightarrow> nat \<Rightarrow> nat" where
  "value_upto c n = (\<Sum>i < n. bit_weight c i)"

text \<open>
  The hash as the specification words it: the value of each occupied block, the last one
  cut off at the size, folded low to high by \<open>result * 64 + word\<close> from the size.
\<close>

definition occupied_word :: "bvec \<Rightarrow> nat \<Rightarrow> 64 word" where
  "occupied_word c k =
     horner_sum of_bool 2
       (map (\<lambda>j. get_at c (64 * k + j) = Inr True) [0..<min 64 (size_bvec c - 64 * k)])"

definition hash_spec :: "bvec \<Rightarrow> 64 word" where
  "hash_spec c =
     foldl (\<lambda>result w. result * 64 + w) (of_nat (size_bvec c))
       (map (occupied_word c) [0..<(size_bvec c + 63) div 64])"

section \<open>Basic facts\<close>

declare flip_words.simps [simp del] fill_words.simps [simp del] erase_shift.simps [simp del]
  erase_blocks.simps [simp del] from_bytes.simps [simp del] cmp_msb.simps [simp del]
  cmp_rhs_tail.simps [simp del] cmp_lhs_tail.simps [simp del] popcount_loop.simps [simp del]
  hash_loop.simps [simp del]

lemma block_round_small: "x < 2 ^ 63 \<Longrightarrow> block_round x = (x + 63) div 64"
  by (simp add: block_round_def block_digits_def)

lemma heap_size_bound: "unat (sz :: 35 word) < 2 ^ 35"
  using unsigned_less [of sz, where ?'a = nat] by simp

lemma block_round_heap_size: "block_round (unat (sz :: 35 word)) = (unat sz + 63) div 64"
  using heap_size_bound [of sz] by (simp add: block_round_small)

lemma and_bit_test: "(w AND push_bit n 1 \<noteq> 0) = bit w n"
  by (simp only: bit_iff_and_push_bit_not_eq_0)

lemma get_at_valid:
  assumes "valid c" and "i < size_bvec c"
  shows "get_at c i = Inr (test_bit c i)"
proof (cases c)
  case (Stack sz d)
  with assms have "i < 120" by (simp add: valid_def size_bvec_def stack_capacity_def)
  then show ?thesis using Stack
    by (simp add: get_at_def shl_def bind_def test_bit_def and_bit_test bit_ucast_iff del: push_bit_of_1)
next
  case (Heap sz cap p)
  with assms have "i < length p * 64" by (simp add: valid_def size_bvec_def block_digits_def)
  then have "i div 64 < length p" by (simp add: less_mult_imp_div_less)
  then show ?thesis using Heap
    by (simp add: get_at_def rd_def bind_def test_bit_def block_digits_def and_bit_test del: push_bit_of_1)
qed

section \<open>Whole-container complement\<close>

lemma flip_words_eq:
  "words \<le> length p \<Longrightarrow>
   flip_words ii words p =
     Inr (map (\<lambda>k. if ii \<le> k \<and> k < words then NOT (p ! k) else p ! k) [0..<length p])"
proof (induction ii words p rule: flip_words.induct)
  case (1 ii words p)
  show ?case
  proof (cases "ii < words")
    case True
    then have lt: "ii < length p" using 1(2) by simp
    have "flip_words ii words p = flip_words (ii + 1) words (p[ii := NOT (p ! ii)])"
      using True lt by (subst flip_words.simps) (simp add: bind_def rd_def wr_def)
    also have "\<dots> = Inr (map (\<lambda>k. if ii + 1 \<le> k \<and> k < words
                                 then NOT (p[ii := NOT (p ! ii)] ! k)
                                 else p[ii := NOT (p ! ii)] ! k) [0..<length p])"
      using 1(1)[OF True, of "p[ii := NOT (p ! ii)]"] True lt 1(2)
      by simp
    also have "\<dots> = Inr (map (\<lambda>k. if ii \<le> k \<and> k < words then NOT (p ! k) else p ! k) [0..<length p])"
      using True lt by (auto simp: nth_list_update)
    finally show ?thesis .
  next
    case False
    have "map (\<lambda>k. if ii \<le> k \<and> k < words then NOT (p ! k) else p ! k) [0..<length p] = p"
      using False by (intro nth_equalityI) auto
    then show ?thesis using False
      by (subst flip_words.simps) simp
  qed
qed

lemma flip_valid:
  assumes "valid v"
  shows "\<exists>v'. flip v = Inr v' \<and> valid v' \<and> size_bvec v' = size_bvec v \<and> is_heap v' = is_heap v
     \<and> (\<forall>i < size_bvec v. test_bit v' i = (\<not> test_bit v i))"
proof (cases v)
  case (Stack sz d)
  have "\<forall>i < unat sz. bit (ucast (NOT (ucast d :: stack_data_type)) :: 120 word) i = (\<not> bit d i)"
    using assms Stack
    by (auto simp: valid_def stack_capacity_def bit_ucast_iff bit_not_iff)
  then show ?thesis using assms Stack
    by (simp add: flip_def valid_def size_bvec_def is_heap_def test_bit_def)
next
  case (Heap sz cap p)
  let ?words = "block_round (unat sz)"
  let ?q = "map (\<lambda>k. if 0 \<le> k \<and> k < ?words then NOT (p ! k) else p ! k) [0..<length p]"
  from assms Heap have sz: "unat sz \<le> length p * 64" and cap: "unat cap = length p"
    by (simp_all add: valid_def block_digits_def)
  have words: "?words \<le> length p"
    using sz by (simp add: block_round_heap_size)
  have fl: "flip v = Inr (Heap sz cap ?q)"
    using Heap flip_words_eq [OF words, of 0] by (simp add: flip_def bind_def)
  have bits: "test_bit (Heap sz cap ?q) i = (\<not> test_bit v i)" if "i < unat sz" for i
  proof -
    have "i div 64 < ?words" using that by (simp add: block_round_heap_size)
    moreover have "i div 64 < length p" using that sz by (simp add: less_mult_imp_div_less)
    ultimately show ?thesis using Heap
      by (simp add: test_bit_def block_digits_def bit_not_iff)
  qed
  show ?thesis using fl bits Heap cap sz
    by (simp add: valid_def size_bvec_def is_heap_def block_digits_def)
qed

text \<open>
  C10. For every bit-vector satisfying the size invariant, inline or heap-backed,
  \<open>flip\<close> returns, leaves the size unchanged and complements every bit at the positions
  \<open>[0, size)\<close>; a second \<open>flip\<close> returns too and restores the size and every bit at those
  positions.
\<close>

theorem flip_involution:
  assumes "valid v"
  shows "\<exists>v' v''. flip v = Inr v' \<and> flip v' = Inr v''
     \<and> size_bvec v' = size_bvec v \<and> size_bvec v'' = size_bvec v
     \<and> is_heap v' = is_heap v \<and> is_heap v'' = is_heap v
     \<and> (\<forall>i < size_bvec v. \<exists>b. get_at v i = Inr b \<and> get_at v' i = Inr (\<not> b) \<and> get_at v'' i = Inr b)"
proof -
  from flip_valid [OF assms] obtain v' where
    1: "flip v = Inr v'" "valid v'" "size_bvec v' = size_bvec v" "is_heap v' = is_heap v"
       "\<forall>i < size_bvec v. test_bit v' i = (\<not> test_bit v i)"
    by blast
  from flip_valid [OF 1(2)] obtain v'' where
    2: "flip v' = Inr v''" "valid v''" "size_bvec v'' = size_bvec v'" "is_heap v'' = is_heap v'"
       "\<forall>i < size_bvec v'. test_bit v'' i = (\<not> test_bit v' i)"
    by blast
  have "get_at v i = Inr (test_bit v i) \<and> get_at v' i = Inr (\<not> test_bit v i)
      \<and> get_at v'' i = Inr (test_bit v i)"
    if "i < size_bvec v" for i
    using that 1 2 assms by (simp add: get_at_valid)
  then show ?thesis using 1 2 by auto
qed

theorem flip_involution_witness:
  "valid (Heap 70 2 [5, 9]) \<and>
   (\<exists>v' v''. flip (Heap 70 2 [5, 9]) = Inr v' \<and> flip v' = Inr v''
     \<and> size_bvec v' = size_bvec (Heap 70 2 [5, 9]) \<and> size_bvec v'' = size_bvec (Heap 70 2 [5, 9])
     \<and> is_heap v' = is_heap (Heap 70 2 [5, 9]) \<and> is_heap v'' = is_heap (Heap 70 2 [5, 9])
     \<and> (\<forall>i < size_bvec (Heap 70 2 [5, 9]).
          \<exists>b. get_at (Heap 70 2 [5, 9]) i = Inr b \<and> get_at v' i = Inr (\<not> b) \<and> get_at v'' i = Inr b))"
proof -
  have "valid (Heap 70 2 [5, 9])" by (simp add: valid_def block_digits_def)
  then show ?thesis using flip_involution [of "Heap 70 2 [5, 9]"] by blast
qed

section \<open>Three-way comparison\<close>

lemma value_upto_Suc: "value_upto c (Suc n) = value_upto c n + bit_weight c n"
  by (simp add: value_upto_def)

lemma value_upto_less: "value_upto c n < 2 ^ n"
proof (induction n)
  case 0
  show ?case by (simp add: value_upto_def)
next
  case (Suc n)
  have "bit_weight c n \<le> 2 ^ n" by (simp add: bit_weight_def)
  with Suc show ?case by (simp add: value_upto_Suc)
qed

lemma value_upto_set: "get_at c n = Inr True \<Longrightarrow> 2 ^ n \<le> value_upto c (Suc n)"
  by (simp add: value_upto_Suc bit_weight_def)

lemma value_upto_clear: "get_at c n = Inr False \<Longrightarrow> value_upto c (Suc n) = value_upto c n"
  by (simp add: value_upto_Suc bit_weight_def)

lemma get_at_cases:
  assumes "valid c" and "i < size_bvec c"
  obtains "get_at c i = Inr True" | "get_at c i = Inr False"
  using get_at_valid [OF assms] by (cases "test_bit c i") auto

lemma cmp_msb_value:
  assumes "valid a" and "valid b"
  shows "n \<le> size_bvec a \<Longrightarrow> n \<le> size_bvec b \<Longrightarrow>
    cmp_msb a b n = Inr (three_way (value_upto a n) (value_upto b n))"
proof (induction n)
  case 0
  show ?case by (subst cmp_msb.simps) (simp add: three_way_def value_upto_def)
next
  case (Suc n)
  then have n: "n < size_bvec a" "n < size_bvec b" by simp_all
  have ih: "cmp_msb a b n = Inr (three_way (value_upto a n) (value_upto b n))"
    using Suc by simp
  have la: "value_upto a n < 2 ^ n" and lb: "value_upto b n < 2 ^ n"
    by (rule value_upto_less)+
  show ?case
  proof (rule get_at_cases [OF assms(1) n(1)]; rule get_at_cases [OF assms(2) n(2)])
    assume g: "get_at a n = Inr True" "get_at b n = Inr True"
    then show ?thesis using ih
      by (subst cmp_msb.simps) (simp add: bind_def three_way_def value_upto_Suc bit_weight_def)
  next
    assume g: "get_at a n = Inr True" "get_at b n = Inr False"
    then show ?thesis using la lb
      by (subst cmp_msb.simps) (simp add: bind_def three_way_def value_upto_Suc bit_weight_def)
  next
    assume g: "get_at a n = Inr False" "get_at b n = Inr True"
    then show ?thesis using la lb
      by (subst cmp_msb.simps) (simp add: bind_def three_way_def value_upto_Suc bit_weight_def)
  next
    assume g: "get_at a n = Inr False" "get_at b n = Inr False"
    then show ?thesis using ih
      by (subst cmp_msb.simps) (simp add: bind_def three_way_def value_upto_Suc bit_weight_def)
  qed
qed

lemma cmp_rhs_tail_value:
  assumes "valid a" and "valid b" and "n \<le> size_bvec a"
  shows "n \<le> m \<Longrightarrow> m \<le> size_bvec b \<Longrightarrow>
    cmp_rhs_tail a b n m = Inr (three_way (value_upto a n) (value_upto b m))"
proof (induction m)
  case 0
  then have "n = 0" by simp
  then show ?case using cmp_msb_value [OF assms(1,2), of 0]
    by (subst cmp_rhs_tail.simps) simp
next
  case (Suc m)
  show ?case
  proof (cases "n = Suc m")
    case True
    then show ?thesis using cmp_msb_value [OF assms(1,2), of n] assms(3) Suc.prems
      by (subst cmp_rhs_tail.simps) simp
  next
    case False
    with Suc.prems have nm: "n \<le> m" and m: "m < size_bvec b" by simp_all
    have ih: "cmp_rhs_tail a b n m = Inr (three_way (value_upto a n) (value_upto b m))"
      using Suc.IH nm m by simp
    have la: "value_upto a n < 2 ^ n" by (rule value_upto_less)
    have pw: "(2::nat) ^ n \<le> 2 ^ m" using nm by simp
    show ?thesis
    proof (rule get_at_cases [OF assms(2) m])
      assume g: "get_at b m = Inr True"
      then have "value_upto a n < value_upto b (Suc m)"
        using value_upto_set [OF g] la pw by linarith
      then show ?thesis using g nm
        by (subst cmp_rhs_tail.simps) (simp add: bind_def three_way_def)
    next
      assume g: "get_at b m = Inr False"
      then show ?thesis using ih nm value_upto_clear [OF g]
        by (subst cmp_rhs_tail.simps) (simp add: bind_def)
    qed
  qed
qed

lemma cmp_lhs_tail_value:
  assumes "valid a" and "valid b" and "m \<le> size_bvec b"
  shows "n \<le> size_bvec a \<Longrightarrow>
    cmp_lhs_tail a b n m = Inr (three_way (value_upto a n) (value_upto b m))"
proof (induction n)
  case 0
  then show ?case using cmp_rhs_tail_value [OF assms(1,2), of 0 m] assms(3)
    by (subst cmp_lhs_tail.simps) simp
next
  case (Suc n)
  show ?case
  proof (cases "Suc n \<le> m")
    case True
    then show ?thesis using cmp_rhs_tail_value [OF assms(1,2), of "Suc n" m] assms(3) Suc.prems
      by (subst cmp_lhs_tail.simps) simp
  next
    case False
    then have mn: "m \<le> n" by simp
    from Suc.prems have n: "n < size_bvec a" by simp
    have ih: "cmp_lhs_tail a b n m = Inr (three_way (value_upto a n) (value_upto b m))"
      using Suc.IH n by simp
    have lb: "value_upto b m < 2 ^ m" by (rule value_upto_less)
    have pw: "(2::nat) ^ m \<le> 2 ^ n" using mn by simp
    show ?thesis
    proof (rule get_at_cases [OF assms(1) n])
      assume g: "get_at a n = Inr True"
      then have "value_upto b m < value_upto a (Suc n)"
        using value_upto_set [OF g] lb pw by linarith
      then show ?thesis using g mn
        by (subst cmp_lhs_tail.simps) (simp add: bind_def three_way_def)
    next
      assume g: "get_at a n = Inr False"
      then show ?thesis using ih mn value_upto_clear [OF g]
        by (subst cmp_lhs_tail.simps) (simp add: bind_def)
    qed
  qed
qed

lemma operator_cmp_value:
  assumes "valid a" and "valid b"
  shows "operator_cmp a b = Inr (three_way (value_of a) (value_of b))"
  using cmp_lhs_tail_value [OF assms, of "size_bvec b" "size_bvec a"]
  by (simp add: operator_cmp_def value_of_def value_upto_def)


lemma bit_weight_le_value_upto: "i < n \<Longrightarrow> bit_weight c i \<le> value_upto c n"
  unfolding value_upto_def by (rule member_le_sum) simp_all

lemma value_upto_extra_clear:
  "m \<le> n \<Longrightarrow> (\<forall>i. m \<le> i \<and> i < n \<longrightarrow> get_at c i = Inr False) \<Longrightarrow> value_upto c n = value_upto c m"
proof (induction n)
  case 0
  then show ?case by simp
next
  case (Suc n)
  show ?case
  proof (cases "m = Suc n")
    case True
    then show ?thesis by simp
  next
    case False
    with Suc.prems have "m \<le> n" and "get_at c n = Inr False" by simp_all
    with Suc show ?thesis by (simp add: value_upto_clear)
  qed
qed

lemma value_upto_same_high:
  "Suc k \<le> m \<Longrightarrow> (\<forall>i. k < i \<and> i < m \<longrightarrow> get_at a i = get_at b i) \<Longrightarrow>
   \<exists>t. value_upto a m = value_upto a (Suc k) + t \<and> value_upto b m = value_upto b (Suc k) + t"
proof (induction m)
  case 0
  then show ?case by simp
next
  case (Suc m)
  show ?case
  proof (cases "k = m")
    case True
    then show ?thesis by simp
  next
    case False
    with Suc.prems have km: "Suc k \<le> m" and eq: "get_at a m = get_at b m" by simp_all
    from Suc.IH [OF km] Suc.prems(2) obtain t where
      t: "value_upto a m = value_upto a (Suc k) + t" "value_upto b m = value_upto b (Suc k) + t"
      by auto
    have "bit_weight a m = bit_weight b m" using eq by (simp add: bit_weight_def)
    with t show ?thesis by (simp add: value_upto_Suc)
  qed
qed

lemma value_upto_cong:
  "(\<forall>i < m. get_at a i = get_at b i) \<Longrightarrow> value_upto a m = value_upto b m"
  by (simp add: value_upto_def bit_weight_def)

lemma value_upto_first_diff:
  assumes "k < m" and "get_at a k = Inr True" and "get_at b k = Inr False"
    and "\<forall>i. k < i \<and> i < m \<longrightarrow> get_at a i = get_at b i"
  shows "value_upto b m < value_upto a m"
proof -
  from value_upto_same_high [of k m a b] assms obtain t where
    t: "value_upto a m = value_upto a (Suc k) + t" "value_upto b m = value_upto b (Suc k) + t"
    by auto
  have "value_upto b (Suc k) < 2 ^ k"
    using value_upto_clear [OF assms(3)] value_upto_less [of b k] by simp
  also have "\<dots> \<le> value_upto a (Suc k)" by (rule value_upto_set [OF assms(2)])
  finally show ?thesis using t by simp
qed

text \<open>
  C7. For bit-vectors \<open>a\<close> and \<open>b\<close> satisfying the size invariant, \<open>operator<=>\<close>
  returns the order of the unsigned numbers they denote with position 0 least significant.
  If the longer operand has a set bit at a position the shorter one lacks, the longer one
  is the greater. If all those extra bits are clear, the result is decided by the highest
  shared position at which the two differ, and is equivalent when no shared position
  differs.
\<close>

theorem operator_cmp_unsigned_order:
  assumes "valid a" and "valid b"
  shows "operator_cmp a b = Inr (three_way (value_of a) (value_of b))
    \<and> ((\<exists>i. size_bvec b \<le> i \<and> i < size_bvec a \<and> get_at a i = Inr True) \<longrightarrow>
         operator_cmp a b = Inr Greater)
    \<and> ((\<exists>i. size_bvec a \<le> i \<and> i < size_bvec b \<and> get_at b i = Inr True) \<longrightarrow>
         operator_cmp a b = Inr Less)
    \<and> ((\<forall>i. size_bvec b \<le> i \<and> i < size_bvec a \<longrightarrow> get_at a i = Inr False) \<and>
        (\<forall>i. size_bvec a \<le> i \<and> i < size_bvec b \<longrightarrow> get_at b i = Inr False) \<longrightarrow>
         ((\<forall>i < min (size_bvec a) (size_bvec b). get_at a i = get_at b i) \<longrightarrow>
            operator_cmp a b = Inr Equivalent) \<and>
         (\<forall>k < min (size_bvec a) (size_bvec b).
            get_at a k \<noteq> get_at b k \<and>
            (\<forall>i. k < i \<and> i < min (size_bvec a) (size_bvec b) \<longrightarrow> get_at a i = get_at b i) \<longrightarrow>
            operator_cmp a b = Inr (if get_at a k = Inr True then Greater else Less)))"
proof -
  let ?m = "min (size_bvec a) (size_bvec b)"
  have num: "operator_cmp a b = Inr (three_way (value_of a) (value_of b))"
    by (rule operator_cmp_value [OF assms])
  have va: "value_of a = value_upto a (size_bvec a)" and vb: "value_of b = value_upto b (size_bvec b)"
    by (simp_all add: value_of_def value_upto_def)
  have gt: "operator_cmp a b = Inr Greater"
    if "size_bvec b \<le> i" "i < size_bvec a" "get_at a i = Inr True" for i
  proof -
    have "value_of b < 2 ^ size_bvec b" unfolding vb by (rule value_upto_less)
    also have "\<dots> \<le> 2 ^ i" using that(1) by simp
    also have "\<dots> \<le> value_of a"
      using bit_weight_le_value_upto [OF that(2), of a] that(3) by (simp add: va bit_weight_def)
    finally show ?thesis by (simp add: num three_way_def)
  qed
  have lt: "operator_cmp a b = Inr Less"
    if "size_bvec a \<le> i" "i < size_bvec b" "get_at b i = Inr True" for i
  proof -
    have "value_of a < 2 ^ size_bvec a" unfolding va by (rule value_upto_less)
    also have "\<dots> \<le> 2 ^ i" using that(1) by simp
    also have "\<dots> \<le> value_of b"
      using bit_weight_le_value_upto [OF that(2), of b] that(3) by (simp add: vb bit_weight_def)
    finally show ?thesis by (simp add: num three_way_def)
  qed
  have shared: "(((\<forall>i < ?m. get_at a i = get_at b i) \<longrightarrow> operator_cmp a b = Inr Equivalent) \<and>
         (\<forall>k < ?m. get_at a k \<noteq> get_at b k \<and>
            (\<forall>i. k < i \<and> i < ?m \<longrightarrow> get_at a i = get_at b i) \<longrightarrow>
            operator_cmp a b = Inr (if get_at a k = Inr True then Greater else Less)))"
    if xa: "\<forall>i. size_bvec b \<le> i \<and> i < size_bvec a \<longrightarrow> get_at a i = Inr False"
    and xb: "\<forall>i. size_bvec a \<le> i \<and> i < size_bvec b \<longrightarrow> get_at b i = Inr False"
  proof -
    have ma: "value_of a = value_upto a ?m"
      unfolding va using xa by (intro value_upto_extra_clear) auto
    have mb: "value_of b = value_upto b ?m"
      unfolding vb using xb by (intro value_upto_extra_clear) auto
    have eq: "operator_cmp a b = Inr Equivalent" if "\<forall>i < ?m. get_at a i = get_at b i"
      using value_upto_cong [OF that] by (simp add: num ma mb three_way_def)
    have df: "operator_cmp a b = Inr (if get_at a k = Inr True then Greater else Less)"
      if k: "k < ?m" and ne: "get_at a k \<noteq> get_at b k"
        and hi: "\<forall>i. k < i \<and> i < ?m \<longrightarrow> get_at a i = get_at b i" for k
    proof -
      from k have ka: "k < size_bvec a" and kb: "k < size_bvec b" by simp_all
      show ?thesis
      proof (rule get_at_cases [OF assms(1) ka]; rule get_at_cases [OF assms(2) kb])
        assume g: "get_at a k = Inr True" "get_at b k = Inr False"
        from value_upto_first_diff [OF k g hi] show ?thesis
          using g by (simp add: num ma mb three_way_def)
      next
        assume g: "get_at a k = Inr False" "get_at b k = Inr True"
        have "\<forall>i. k < i \<and> i < ?m \<longrightarrow> get_at b i = get_at a i" using hi by simp
        from value_upto_first_diff [OF k g(2,1) this] show ?thesis
          using g by (simp add: num ma mb three_way_def)
      qed (use ne in simp_all)
    qed
    show ?thesis using eq df by blast
  qed
  show ?thesis using num gt lt shared by blast
qed


theorem operator_cmp_unsigned_order_witness:
  "valid (Stack 3 5) \<and> valid (Heap 4 1 [13]) \<and> operator_cmp (Stack 3 5) (Heap 4 1 [13]) = Inr Less"
proof -
  have va: "valid (Stack 3 5)" by (simp add: valid_def stack_capacity_def)
  have vb: "valid (Heap 4 1 [13])" by (simp add: valid_def block_digits_def)
  have "get_at (Heap 4 1 [13]) 3 = Inr True"
    by (simp add: get_at_def rd_def bind_def block_digits_def)
  then have "\<exists>i. size_bvec (Stack 3 5) \<le> i \<and> i < size_bvec (Heap 4 1 [13]) \<and> get_at (Heap 4 1 [13]) i = Inr True"
    by (intro exI [of _ 3]) (simp add: size_bvec_def)
  with operator_cmp_unsigned_order [OF va vb] va vb show ?thesis by blast
qed

section \<open>Equality and hashing\<close>

lemma round_up_div: "(s + 63) div 64 = s div 64 + (if s mod 64 = 0 then 0 else (1::nat))"
proof -
  obtain q r where s: "s = 64 * q + r" and r: "r < 64"
    by (metis mod_less_divisor mult_div_mod_eq zero_less_numeral)
  have "(64 * q + r + 63) div 64 = q + (r + 63) div 64"
    by (simp add: add.assoc)
  moreover have "(r + 63) div 64 = (if r = 0 then 0 else 1)"
    using r by (auto simp: div_eq_0_iff Suc_le_eq intro!: div_nat_eqI)
  ultimately show ?thesis using s r by simp
qed

lemma sub64_le:
  assumes "b \<le> a" and "a < 2 ^ 64"
  shows "sub64 a b = a - b"
proof -
  have b: "b mod 2 ^ 64 = b" using assms by simp
  have "a + 2 ^ 64 - b = (a - b) + 2 ^ 64" using assms(1) by simp
  then have "(a + 2 ^ 64 - b) mod 2 ^ 64 = (a - b) mod 2 ^ 64" by (simp only: mod_add_self2)
  also have "\<dots> = a - b" using assms by simp
  finally show ?thesis unfolding sub64_def b .
qed

lemma shr_nat: "n < LENGTH('a) \<Longrightarrow> shr (w :: 'a::len word) (int n) = Inr (drop_bit n w)"
  by (simp add: shr_def)

lemma shl_nat: "n < LENGTH('a) \<Longrightarrow> shl (w :: 'a::len word) (int n) = Inr (push_bit n w)"
  by (simp add: shl_def)

lemma cast_mask:
  assumes "k < (s + 63) div 64"
  shows "\<exists>m. (if k = s div 64 then shr block_mask (int (sub64 64 (s mod 64))) else Inr block_mask) = Inr m
     \<and> (\<forall>n. bit m n \<longleftrightarrow> n < 64 \<and> 64 * k + n < s)"
proof (cases "k = s div 64")
  case True
  with assms have nz: "s mod 64 \<noteq> 0" by (simp add: round_up_div split: if_splits)
  have lt: "s mod 64 < 64" by simp
  have sub: "sub64 64 (s mod 64) = 64 - s mod 64"
    using lt by (intro sub64_le) simp_all
  have s: "s = 64 * k + s mod 64" using True by simp
  have "bit (drop_bit (64 - s mod 64) (- 1 :: 64 word)) n \<longleftrightarrow> n < 64 \<and> 64 * k + n < s" for n
  proof -
    have "64 * k + n < s \<longleftrightarrow> n < s mod 64" using s by linarith
    then show ?thesis using lt nz by (auto simp: bit_drop_bit_eq bit_mask_iff)
  qed
  moreover have "shr block_mask (int (sub64 64 (s mod 64))) = Inr (drop_bit (64 - s mod 64) block_mask)"
    unfolding sub using nz by (intro shr_nat) simp
  ultimately show ?thesis using True by (simp add: block_mask_def)
next
  case False
  with assms have "k < s div 64" by (simp add: round_up_div split: if_splits)
  then have "64 * (k + 1) \<le> 64 * (s div 64)" by simp
  also have "\<dots> \<le> s" by simp
  finally have "64 * k + n < s" if "n < 64" for n using that by simp
  then show ?thesis using False by (auto simp: block_mask_def)
qed

lemma bvec_cast_bits:
  assumes "valid c" and "k < (size_bvec c + 63) div 64"
  shows "\<exists>w. (bvec_cast c k :: error + 64 word) = Inr w
     \<and> (\<forall>n. bit w n \<longleftrightarrow> n < 64 \<and> 64 * k + n < size_bvec c \<and> test_bit c (64 * k + n))"
proof (cases c)
  case (Heap sz cap p)
  from assms(2) Heap have k': "k < (unat sz + 63) div 64" by (simp add: size_bvec_def)
  from cast_mask [OF k'] obtain m where
    m: "(if k = unat sz div 64 then shr block_mask (int (sub64 64 (unat sz mod 64)))
        else Inr block_mask) = Inr m"
    and mb: "\<And>n. bit m n \<longleftrightarrow> n < 64 \<and> 64 * k + n < unat sz"
    by blast
  from assms(1) Heap have "unat sz \<le> length p * 64"
    by (simp add: valid_def block_digits_def)
  then have "(unat sz + 63) div 64 \<le> length p" by simp
  with k' have k: "k < length p" by simp
  have "(bvec_cast (Heap sz cap p) k :: error + 64 word)
      = bind (if k = unat sz div 64 then shr block_mask (int (sub64 64 (unat sz mod 64)))
              else Inr block_mask) (\<lambda>mask. Inr (p ! k AND mask))"
    using k by (auto simp: bvec_cast_def bind_def rd_def block_digits_def size_bvec_def split: sum.splits)
  then have "(bvec_cast c k :: error + 64 word) = Inr (p ! k AND m)"
    unfolding m Heap by (simp add: bind_def)
  moreover have "bit (p ! k AND m) n \<longleftrightarrow> n < 64 \<and> 64 * k + n < size_bvec c \<and> test_bit c (64 * k + n)" for n
    unfolding Heap by (auto simp: bit_and_iff mb test_bit_def block_digits_def size_bvec_def)
  ultimately show ?thesis by blast
next
  case (Stack sz d)
  from assms(2) Stack have k': "k < (unat sz + 63) div 64" by (simp add: size_bvec_def)
  from cast_mask [OF k'] obtain m where
    m: "(if k = unat sz div 64 then shr block_mask (int (sub64 64 (unat sz mod 64)))
        else Inr block_mask) = Inr m"
    and mb: "\<And>n. bit m n \<longleftrightarrow> n < 64 \<and> 64 * k + n < unat sz"
    by blast
  from assms(1) Stack have "unat sz \<le> 120"
    by (simp add: valid_def stack_capacity_def)
  then have "(unat sz + 63) div 64 \<le> 2" by simp
  with k' have k: "k < 2" by simp
  have k64: "k * 64 mod 18446744073709551616 = k * 64" using k by simp
  have sh: "shr (ucast d :: stack_data_type) (int (k * 64 mod 18446744073709551616))
      = Inr (drop_bit (k * 64) (ucast d))"
    unfolding k64 using k by (intro shr_nat) simp
  have unf: "(bvec_cast (Stack sz d) k :: error + 64 word)
      = bind (if k = unat sz div 64 then shr block_mask (int (sub64 64 (unat sz mod 64)))
              else Inr block_mask)
          (\<lambda>mask. bind (shr (ucast d :: stack_data_type) (int (k * 64 mod 18446744073709551616)))
             (\<lambda>x. Inr (ucast (x AND ucast mask))))"
    by (simp add: bvec_cast_def size_bvec_def)
  have "(bvec_cast c k :: error + 64 word)
      = Inr (ucast (drop_bit (k * 64) (ucast d :: stack_data_type) AND ucast m))"
    unfolding Stack unf m sh by (simp add: bind_def)
  moreover have "bit (ucast (drop_bit (k * 64) (ucast d :: stack_data_type) AND ucast m) :: 64 word) n
      \<longleftrightarrow> n < 64 \<and> 64 * k + n < size_bvec c \<and> test_bit c (64 * k + n)" for n
  proof -
    have "bit (ucast d :: stack_data_type) (k * 64 + n) = bit d (64 * k + n)"
      by (auto simp: bit_ucast_iff mult.commute dest: bit_imp_le_length)
    moreover have "bit (ucast m :: stack_data_type) n = bit m n"
      by (auto simp: bit_ucast_iff dest: bit_imp_le_length)
    ultimately show ?thesis
      unfolding Stack by (auto simp: bit_ucast_iff bit_and_iff bit_drop_bit_eq mb test_bit_def size_bvec_def)
  qed
  ultimately show ?thesis by blast
qed

lemma occupied_word_bits:
  assumes "valid c"
  shows "bit (occupied_word c k) n \<longleftrightarrow> n < 64 \<and> 64 * k + n < size_bvec c \<and> test_bit c (64 * k + n)"
proof (cases "n < 64 \<and> 64 * k + n < size_bvec c")
  case True
  then have g: "get_at c (64 * k + n) = Inr (test_bit c (64 * k + n))"
    using get_at_valid [OF assms] by simp
  from True have n: "n < min 64 (size_bvec c - 64 * k)" by linarith
  then have "map (\<lambda>j. get_at c (64 * k + j) = Inr True) [0..<min 64 (size_bvec c - 64 * k)] ! n
      = test_bit c (64 * k + n)"
    using g by (simp del: min_less_iff_conj)
  then show ?thesis using True n
    by (simp add: occupied_word_def bit_horner_sum_bit_word_iff del: min_less_iff_conj)
next
  case False
  then show ?thesis
    by (auto simp: occupied_word_def bit_horner_sum_bit_word_iff)
qed

lemma bvec_cast_occupied_word:
  assumes "valid c" and "k < (size_bvec c + 63) div 64"
  shows "bvec_cast c k = Inr (occupied_word c k)"
proof -
  from bvec_cast_bits [OF assms] obtain w :: "64 word" where
    w: "bvec_cast c k = Inr w"
       "\<And>n. bit w n \<longleftrightarrow> n < 64 \<and> 64 * k + n < size_bvec c \<and> test_bit c (64 * k + n)"
    by blast
  have "bit w n = bit (occupied_word c k) n" for n
    unfolding w(2) occupied_word_bits [OF assms(1)] ..
  then have "w = occupied_word c k"
    by (intro bit_eqI)
  with w(1) show ?thesis by simp
qed

lemma hash_loop_fold:
  "(\<forall>k < lastWord. bvec_cast key k = Inr (f k)) \<Longrightarrow>
    hash_loop ii lastWord key result = Inr (foldl (\<lambda>r w. r * 64 + w) result (map f [ii..<lastWord]))"
proof (induction ii lastWord key result rule: hash_loop.induct)
  case (1 ii lastWord key result)
  show ?case
  proof (cases "ii < lastWord")
    case True
    then have c: "bvec_cast key ii = Inr (f ii)" using "1.prems" by simp
    have "hash_loop ii lastWord key result = hash_loop (ii + 1) lastWord key (result * 64 + f ii)"
      using True c by (subst hash_loop.simps) (simp add: bind_def block_digits_def)
    also have "\<dots> = Inr (foldl (\<lambda>r w. r * 64 + w) (result * 64 + f ii) (map f [ii + 1..<lastWord]))"
      using "1.IH" [OF True, of "f ii"] "1.prems" by (simp add: block_digits_def)
    also have "\<dots> = Inr (foldl (\<lambda>r w. r * 64 + w) result (map f [ii..<lastWord]))"
      using True by (simp add: upt_conv_Cons)
    finally show ?thesis .
  next
    case False
    then show ?thesis by (subst hash_loop.simps) simp
  qed
qed

lemma hash_eq_hash_spec:
  assumes "valid c"
  shows "hash c = Inr (hash_spec c)"
proof -
  have "size_bvec c + 64 - 1 = size_bvec c + 63" by simp
  then have "hash c = hash_loop 0 ((size_bvec c + 63) div 64) c (of_nat (size_bvec c))"
    unfolding hash_def Let_def by (simp only:)
  also have "\<dots> = Inr (hash_spec c)"
    unfolding hash_spec_def
    by (rule hash_loop_fold) (simp add: bvec_cast_occupied_word [OF assms])
  finally show ?thesis .
qed

lemma unat_succ_le: "unat (ii + 1 :: 32 word) \<le> unat ii + 1"
  by (simp add: unat_word_ariths)

lemma eq_loop_true:
  assumes "eq_loop lhs rhs ii = Some y"
  shows "y = Inr True \<longrightarrow>
    (\<forall>i. unat ii \<le> i \<and> i < size_bvec lhs \<longrightarrow> get_at lhs i = get_at rhs i)"
proof (rule eq_loop.raw_induct [where P = "\<lambda>lhs rhs ii y. y = Inr True \<longrightarrow>
    (\<forall>i. unat ii \<le> i \<and> i < size_bvec lhs \<longrightarrow> get_at lhs i = get_at rhs i)", OF _ assms])
  fix f :: "bvec \<Rightarrow> bvec \<Rightarrow> 32 word \<Rightarrow> (error + bool) option"
    and l r :: bvec and j :: "32 word" and z :: "error + bool"
  assume ih: "\<And>l r j z. f l r j = Some z \<Longrightarrow> z = Inr True \<longrightarrow>
      (\<forall>i. unat j \<le> i \<and> i < size_bvec l \<longrightarrow> get_at l i = get_at r i)"
    and body: "(if unat j < size_bvec l
      then case get_at l (unat j) of Inl e \<Rightarrow> Some (Inl e)
           | Inr a \<Rightarrow>
               case get_at r (unat j) of Inl e \<Rightarrow> Some (Inl e)
               | Inr b \<Rightarrow> if a \<noteq> b then Some (Inr False) else f l r (j + 1)
      else Some (Inr True)) = Some z"
  show "z = Inr True \<longrightarrow> (\<forall>i. unat j \<le> i \<and> i < size_bvec l \<longrightarrow> get_at l i = get_at r i)"
  proof (intro impI allI)
    fix i
    assume z: "z = Inr True" and i: "unat j \<le> i \<and> i < size_bvec l"
    then have lt: "unat j < size_bvec l" by simp
    from body lt z obtain a where
      a: "get_at l (unat j) = Inr a" "get_at r (unat j) = Inr a"
      and rec: "f l r (j + 1) = Some z"
      by (auto split: sum.splits if_splits)
    show "get_at l i = get_at r i"
    proof (cases "i = unat j")
      case True
      then show ?thesis using a by simp
    next
      case False
      with i have "unat (j + 1) \<le> i" using unat_succ_le [of j] by linarith
      with ih [OF rec] z i show ?thesis by simp
    qed
  qed
qed

lemma operator_eq_true:
  assumes "operator_eq a b = Some (Inr True)"
  shows "size_bvec a = size_bvec b \<and> (\<forall>i < size_bvec a. get_at a i = get_at b i)"
proof -
  from assms have sz: "size_bvec a = size_bvec b" and l: "eq_loop a b 0 = Some (Inr True)"
    by (auto simp: operator_eq_def split: if_splits)
  from eq_loop_true [OF l] sz show ?thesis by simp
qed

lemma hash_spec_cong:
  assumes "size_bvec a = size_bvec b" and "\<forall>i < size_bvec a. get_at a i = get_at b i"
  shows "hash_spec a = hash_spec b"
proof -
  have "occupied_word a k = occupied_word b k" for k
    unfolding occupied_word_def using assms
    by (intro arg_cong [where f = "horner_sum of_bool 2"]) auto
  then have "occupied_word a = occupied_word b" by (rule ext)
  then show ?thesis using assms(1) by (simp add: hash_spec_def)
qed

lemma unat_succ_eq: "unat ii < n \<Longrightarrow> n < 2 ^ 32 \<Longrightarrow> unat (ii + 1 :: 32 word) = unat ii + 1"
  by (simp add: unat_word_ariths)

lemma eq_loop_total:
  assumes "valid a" and "valid b" and "size_bvec a = size_bvec b" and "size_bvec a < 2 ^ 32"
  shows "unat ii \<le> size_bvec a \<Longrightarrow>
    eq_loop a b ii = Some (Inr (\<forall>i. unat ii \<le> i \<and> i < size_bvec a \<longrightarrow> test_bit a i = test_bit b i))"
proof (induction "size_bvec a - unat ii" arbitrary: ii)
  case 0
  then have "\<not> unat ii < size_bvec a" by simp
  then have "(\<forall>i. unat ii \<le> i \<and> i < size_bvec a \<longrightarrow> test_bit a i = test_bit b i) = True"
    by auto
  then show ?case using \<open>\<not> unat ii < size_bvec a\<close> by (subst eq_loop.simps) (simp only: if_False)
next
  case (Suc d)
  then have lt: "unat ii < size_bvec a" by simp
  have su: "unat (ii + 1) = unat ii + 1" using lt assms(4) by (rule unat_succ_eq)
  have ga: "get_at a (unat ii) = Inr (test_bit a (unat ii))"
    using lt by (simp add: get_at_valid [OF assms(1)])
  have gb: "get_at b (unat ii) = Inr (test_bit b (unat ii))"
    using lt assms(3) by (simp add: get_at_valid [OF assms(2)])
  have ih: "eq_loop a b (ii + 1)
      = Some (Inr (\<forall>i. unat ii + 1 \<le> i \<and> i < size_bvec a \<longrightarrow> test_bit a i = test_bit b i))"
    using Suc.hyps(1) [of "ii + 1"] Suc.hyps(2) lt su by simp
  show ?case
  proof (cases "test_bit a (unat ii) = test_bit b (unat ii)")
    case True
    have "(\<forall>i. unat ii + 1 \<le> i \<and> i < size_bvec a \<longrightarrow> test_bit a i = test_bit b i)
        = (\<forall>i. unat ii \<le> i \<and> i < size_bvec a \<longrightarrow> test_bit a i = test_bit b i)"
    proof (rule iffI)
      assume h: "\<forall>i. unat ii + 1 \<le> i \<and> i < size_bvec a \<longrightarrow> test_bit a i = test_bit b i"
      show "\<forall>i. unat ii \<le> i \<and> i < size_bvec a \<longrightarrow> test_bit a i = test_bit b i"
      proof (intro allI impI)
        fix i
        assume i: "unat ii \<le> i \<and> i < size_bvec a"
        show "test_bit a i = test_bit b i"
        proof (cases "i = unat ii")
          case True
          then show ?thesis using \<open>test_bit a (unat ii) = test_bit b (unat ii)\<close> by simp
        next
          case False
          with i have "unat ii + 1 \<le> i \<and> i < size_bvec a" by simp
          with h show ?thesis by blast
        qed
      qed
    next
      assume h: "\<forall>i. unat ii \<le> i \<and> i < size_bvec a \<longrightarrow> test_bit a i = test_bit b i"
      show "\<forall>i. unat ii + 1 \<le> i \<and> i < size_bvec a \<longrightarrow> test_bit a i = test_bit b i"
      proof (intro allI impI)
        fix i
        assume "unat ii + 1 \<le> i \<and> i < size_bvec a"
        then have "unat ii \<le> i \<and> i < size_bvec a" by simp
        with h show "test_bit a i = test_bit b i" by blast
      qed
    qed
    then show ?thesis using True lt ga gb ih by (subst eq_loop.simps) simp
  next
    case False
    then have "\<not> (\<forall>i. unat ii \<le> i \<and> i < size_bvec a \<longrightarrow> test_bit a i = test_bit b i)"
      using lt by auto
    then show ?thesis using False lt ga gb by (subst eq_loop.simps) simp
  qed
qed

lemma operator_eq_total:
  assumes "valid a" and "valid b" and "size_bvec a < 2 ^ 32"
  shows "operator_eq a b
    = Some (Inr (size_bvec a = size_bvec b \<and> (\<forall>i < size_bvec a. test_bit a i = test_bit b i)))"
proof (cases "size_bvec a = size_bvec b")
  case True
  then show ?thesis using eq_loop_total [OF assms(1,2) True assms(3), of 0]
    by (simp add: operator_eq_def)
next
  case False
  then show ?thesis by (simp add: operator_eq_def)
qed

text \<open>
  C8. For bit-vectors satisfying the size invariant, \<open>std::hash\<close> returns the fold
  \<open>result = result * 64 + word\<close> over the occupied blocks, low to high, seeded with the
  size, the last block cut off at the size; and when \<open>operator==\<close> returns true for two
  vectors, inline or heap-backed, or when they have the same size and the same bit at
  every position below it, their hashes are the same.
\<close>

theorem hash_equal_vectors:
  assumes "valid a" and "valid b"
  shows "hash a = Inr (hash_spec a) \<and> hash b = Inr (hash_spec b)
    \<and> (operator_eq a b = Some (Inr True) \<longrightarrow> hash a = hash b)
    \<and> (size_bvec a = size_bvec b \<and> (\<forall>i < size_bvec a. get_at a i = get_at b i) \<longrightarrow>
         hash a = hash b)"
proof -
  have bits: "hash a = hash b"
    if "size_bvec a = size_bvec b \<and> (\<forall>i < size_bvec a. get_at a i = get_at b i)"
    using that hash_spec_cong [of a b] by (simp add: hash_eq_hash_spec assms)
  have "hash a = hash b" if "operator_eq a b = Some (Inr True)"
    using operator_eq_true [OF that] by (rule bits)
  with bits show ?thesis by (simp add: hash_eq_hash_spec assms)
qed

theorem hash_equal_vectors_witness:
  "valid (Stack 3 5) \<and> valid (Heap 3 1 [5])
   \<and> operator_eq (Stack 3 5) (Heap 3 1 [5]) = Some (Inr True)
   \<and> hash (Stack 3 5) = hash (Heap 3 1 [5])"
proof -
  have va: "valid (Stack 3 5)" by (simp add: valid_def stack_capacity_def)
  have vb: "valid (Heap 3 1 [5])" by (simp add: valid_def block_digits_def)
  have eq: "operator_eq (Stack 3 5) (Heap 3 1 [5]) = Some (Inr True)"
    by (simp add: operator_eq_def size_bvec_def eq_loop.simps get_at_def shl_def rd_def bind_def block_digits_def)
  with hash_equal_vectors [OF va vb] va vb show ?thesis by blast
qed

section \<open>Behaviour on heap-backed and promoted vectors\<close>

lemma replicate_pos: "0 < n \<Longrightarrow> replicate n x = x # replicate (n - 1) x"
  by (cases n) simp_all

lemma list_update_pos: "0 < i \<Longrightarrow> (x # xs)[i := y] = x # xs[i - 1 := y]"
  by (cases i) simp_all

lemma upt_8: "[0..<8] = [0, 1, 2, 3, 4, 5, 6, 7]"
  by (simp add: upt_conv_Cons)

lemma ucast_block_mask: "(ucast (- 1 :: block_type) :: stack_data_type) = 18446744073709551615"
  by (simp add: unsigned_minus_1_eq_mask mask_eq_exp_minus_1)

lemmas layout_defs = block_round_def block_digits_def stack_capacity_def stack_size_mask_def
  stack_data_mask_def heap_size_mask_def heap_capacity_max_def heap_capacity_mask_def
  block_mask_def carry_bit_def uninit_def allocate_def to_size_def sub64_def

lemmas access_defs = bind_def rd_def wr_def shl_def shr_def get_at_def set_at_def size_bvec_def
  replicate_pos list_update_pos

lemmas resize_defs = resize_def resize_stack_def grow_to_heap_def resize_heap_def fill_tail_def
  fill_words.simps memcpy_words_def assign_fill_def

lemma empty_resize_121: "resize 121 False (Stack 0 0) = Inr (Heap 121 2 [0, 0])"
  by (simp add: layout_defs access_defs resize_defs)

text \<open>
  C2. The single-position erase on a heap-backed vector: the vector of 121 clear bits that
  \<open>resize(121, false)\<close> builds from the empty vector still has size 121 after
  \<open>erase\<close> at position 0. The heap branch shifts the words and never decrements the size,
  which the inline branch does.
\<close>
theorem erase_heap_keeps_size:
  "resize 121 False (Stack 0 0) = Inr (Heap 121 2 [0, 0])
   \<and> erase 0 (Heap 121 2 [0, 0]) = Inr (Heap 121 2 [0, 0])
   \<and> size_bvec (Heap 121 2 [0, 0]) = 121"
  by (simp add: empty_resize_121 erase_def erase_shift.simps layout_defs access_defs)

text \<open>
  C3. Promotion by \<open>resize\<close>: the inline vector \<open>{true, false}\<close>, built by
  \<open>resize(1, true)\<close> and \<open>resize(2, false)\<close>, has bit 0 set; after \<open>resize(121, false)\<close>
  it is heap-backed and bit 0 reads clear. With fewer than 64 bits stored,
  \<open>grow_to_heap\<close> writes the high half of the inline data into word 0.
\<close>
theorem grow_to_heap_drops_low_word:
  "resize 1 True (Stack 0 0) = Inr (Stack 1 1329227995784915872903807060280344575)
   \<and> resize 2 False (Stack 1 1329227995784915872903807060280344575) = Inr (Stack 2 1)
   \<and> get_at (Stack 2 1) 0 = Inr True
   \<and> resize 121 False (Stack 2 1) = Inr (Heap 121 2 [0, 0])
   \<and> get_at (Heap 121 2 [0, 0]) 0 = Inr False"
  by (simp add: layout_defs access_defs resize_defs)

text \<open>
  C5. \<open>resize\<close> on a heap-backed vector without reallocation: from the empty vector,
  \<open>resize(192, false)\<close>, \<open>resize(10, false)\<close> and \<open>resize(150, true)\<close> leave bit 64 clear,
  a position in \<open>[10, 150)\<close> that the fill value \<open>true\<close> should have set. Only the word
  holding the old end is filled.
\<close>
theorem resize_heap_fills_tail_word_only:
  "resize 192 False (Stack 0 0) = Inr (Heap 192 3 [0, 0, 0])
   \<and> resize 10 False (Heap 192 3 [0, 0, 0]) = Inr (Heap 10 3 [0, 0, 0])
   \<and> resize 150 True (Heap 10 3 [0, 0, 0]) = Inr (Heap 150 3 [NOT (mask 10), 0, 0])
   \<and> get_at (Heap 150 3 [NOT (mask 10), 0, 0]) 64 = Inr False"
  by (simp add: layout_defs access_defs resize_defs)

text \<open>
  C4. The range erase on a heap-backed vector: in the vector of 121 bits with only bit 64
  set, bit 67 is clear, so after \<open>erase(first = 0, last = 3)\<close> bit 64 should read clear;
  it reads set. Once \<open>first\<close> and \<open>last\<close> fall in one word, the words above it are not
  shifted.
\<close>
theorem erase_range_skips_high_word:
  "resize 121 False (Stack 0 0) = Inr (Heap 121 2 [0, 0])
   \<and> set_at 64 True (Heap 121 2 [0, 0]) = Inr (Heap 121 2 [0, 1])
   \<and> get_at (Heap 121 2 [0, 1]) (64 + 3) = Inr False
   \<and> erase_range 0 3 (Heap 121 2 [0, 1]) = Inr (Heap 118 2 [2305843009213693952, 1])
   \<and> get_at (Heap 118 2 [2305843009213693952, 1]) 64 = Inr True"
  by (simp add: empty_resize_121 erase_range_def erase_first_block_def erase_remaining_def
      erase_blocks.simps layout_defs access_defs)

text \<open>
  C1. \<open>assign(other.begin(), other.end())\<close> from a heap-backed vector: for the heap-backed
  vector of the four bits \<open>1, 0, 1, 0\<close> the copy has size 60, and \<open>operator==\<close> of the
  copy and the original returns false. The heap branch sets the size to the bits of the
  copied words minus \<open>end mod 64\<close>.
\<close>
theorem assign_heap_wrong_size:
  "resize 121 False (Stack 0 0) = Inr (Heap 121 2 [0, 0])
   \<and> resize 4 False (Heap 121 2 [0, 0]) = Inr (Heap 4 2 [0, 0])
   \<and> set_at 0 True (Heap 4 2 [0, 0]) = Inr (Heap 4 2 [1, 0])
   \<and> set_at 2 True (Heap 4 2 [1, 0]) = Inr (Heap 4 2 [5, 0])
   \<and> copy (Heap 4 2 [5, 0]) = Inr (Heap 60 1 [5])
   \<and> operator_eq (Heap 60 1 [5]) (Heap 4 2 [5, 0]) = Some (Inr False)"
  by (simp add: empty_resize_121 layout_defs access_defs resize_defs copy_def assign_def begin_pos_def
      end_pos_def erase_range_def erase_first_block_def erase_remaining_def memcpy_bytes_def
      to_bytes_def word_bytes_def bytes_word_def from_bytes.simps upt_8 operator_eq_def)

lemma cast32_all_ones:
  "(bvec_cast (Stack 64 1329227995784915872903807060280344575) 0 :: error + 32 word) = Inr (- 1)"
  by (simp add: bvec_cast_def layout_defs access_defs ucast_block_mask)

lemma popcount_all_ones: "builtin_popcount (- 1) = 32"
  by (simp add: builtin_popcount_def)

text \<open>
  C9. \<open>std::erase(c, true)\<close> on the inline vector of 64 set bits, built by
  \<open>resize(64, true)\<close>: the result has size 32 and the returned count is 32, where all 64
  bits match. The count runs over 64-bit words and reads 32-bit units.
\<close>
theorem std_erase_counts_half:
  "resize 64 True (Stack 0 0) = Inr (Stack 64 1329227995784915872903807060280344575)
   \<and> std_erase True (Stack 64 1329227995784915872903807060280344575) = Inr (Stack 32 0, 32)"
  by (simp add: std_erase_def popcount_loop.simps cast32_all_ones popcount_all_ones
      layout_defs access_defs resize_defs)

lemma erase_if_loop_stuck:
  assumes "erase_if_loop pred c iter = Some y"
  shows "\<not> (pred False \<and> c = Heap 121 2 [0, 0] \<and> iter = 0)"
proof (rule erase_if_loop.raw_induct [where P = "\<lambda>pred c iter y.
    \<not> (pred False \<and> c = Heap 121 2 [0, 0] \<and> iter = 0)", OF _ assms])
  fix f :: "(bool \<Rightarrow> bool) \<Rightarrow> bvec \<Rightarrow> int \<Rightarrow> (error + bvec) option"
    and p :: "bool \<Rightarrow> bool" and c :: bvec and it :: int and z :: "error + bvec"
  assume ih: "\<And>p c it z. f p c it = Some z \<Longrightarrow> \<not> (p False \<and> c = Heap 121 2 [0, 0] \<and> it = 0)"
    and body: "(if it \<noteq> end_pos c
      then case get_at c (to_size it) of
             Inl e \<Rightarrow> Some (Inl e)
           | Inr b \<Rightarrow>
               if p b
               then case erase it c of
                      Inl e \<Rightarrow> Some (Inl e)
                    | Inr c' \<Rightarrow> f p c' it
               else f p c (it + 1)
      else Some (Inr c)) = Some z"
  show "\<not> (p False \<and> c = Heap 121 2 [0, 0] \<and> it = 0)"
  proof
    assume a: "p False \<and> c = Heap 121 2 [0, 0] \<and> it = 0"
    have e: "end_pos (Heap 121 2 [0, 0]) = 121"
      by (simp add: end_pos_def size_bvec_def)
    have g: "get_at (Heap 121 2 [0, 0]) (to_size 0) = Inr False"
      by (simp add: layout_defs access_defs)
    have r: "erase 0 (Heap 121 2 [0, 0]) = Inr (Heap 121 2 [0, 0])"
      by (simp add: erase_def erase_shift.simps layout_defs access_defs)
    from body a have "f p (Heap 121 2 [0, 0]) 0 = Some z"
      by (simp add: e g r)
    from ih [OF this] a show False by simp
  qed
qed

text \<open>
  C6. \<open>std::erase_if\<close> on the heap-backed vector of 121 clear bits with the predicate
  that holds of a clear bit does not return: each \<open>erase\<close> leaves the vector as it was,
  size included, so the iterator never meets \<open>end()\<close>.
\<close>
theorem erase_if_heap_never_returns:
  "resize 121 False (Stack 0 0) = Inr (Heap 121 2 [0, 0])
   \<and> std_erase_if (\<lambda>b. \<not> b) (Heap 121 2 [0, 0]) = None"
proof -
  have "erase_if_loop (\<lambda>b. \<not> b) (Heap 121 2 [0, 0]) 0 = None"
  proof (cases "erase_if_loop (\<lambda>b. \<not> b) (Heap 121 2 [0, 0]) 0")
    case None
    then show ?thesis .
  next
    case (Some y)
    from erase_if_loop_stuck [OF this] show ?thesis by simp
  qed
  then show ?thesis
    by (simp add: empty_resize_121 std_erase_if_def begin_pos_def)
qed

section \<open>The inline representation\<close>

lemma stack_data_mask_eq: "stack_data_mask = mask 120"
  by (simp add: stack_data_mask_def stack_capacity_def mask_eq_exp_minus_1)

lemma push_bit_1_minus_1: "push_bit n (1 :: 'a::len word) - 1 = mask n"
  by (simp add: mask_eq_exp_minus_1)

lemma erase_stack_bits:
  assumes "n < 120"
  shows "bit (ucast ((push_bit n (drop_bit (n + 1) (ucast d :: stack_data_type)) OR (ucast d AND mask n))
            AND mask 120) :: 120 word) i
     \<longleftrightarrow> (if i < n then bit (d :: 120 word) i else bit d (i + 1))"
proof -
  have b: "bit d k \<Longrightarrow> k < 120" for k
    using bit_imp_le_length [of d k] by simp
  show ?thesis
    using assms b [of i] b [of "Suc i"]
    by (auto simp: bit_ucast_iff bit_and_iff bit_or_iff bit_push_bit_iff bit_drop_bit_eq bit_mask_iff)
qed


text \<open>
  The single-position erase of an inline vector removes the bit at \<open>pos\<close>, moves every
  bit above it down by one and decrements the size.
\<close>

lemma erase_inline:
  assumes "valid (Stack sz d)" and "0 \<le> pos" and "nat pos < unat sz"
  shows "\<exists>v'. erase pos (Stack sz d) = Inr v' \<and> \<not> is_heap v' \<and> valid v'
     \<and> size_bvec v' = unat sz - 1
     \<and> (\<forall>i < unat sz - 1. get_at v' i = get_at (Stack sz d) (if i < nat pos then i else i + 1))"
proof -
  let ?n = "nat pos"
  let ?d' = "ucast ((push_bit ?n (drop_bit (Suc ?n) (ucast d :: stack_data_type)) OR (ucast d AND mask ?n))
            AND mask 120) :: 120 word"
  from assms have sz: "unat sz \<le> 120" by (simp add: valid_def stack_capacity_def)
  with assms have n: "?n < 120" by simp
  have pos: "pos = int ?n" using assms(2) by simp
  have p1: "pos + 1 = int (Suc ?n)" using assms(2) by simp
  have s1: "shr (ucast d :: stack_data_type) (pos + 1) = Inr (drop_bit (Suc ?n) (ucast d))"
    unfolding p1 using n by (intro shr_nat) simp
  have s2: "shl (1 :: stack_data_type) pos = Inr (push_bit ?n 1)"
    by (subst pos, rule shl_nat) (use n in simp)
  have s3: "shl (drop_bit (Suc ?n) (ucast d :: stack_data_type)) pos
      = Inr (push_bit ?n (drop_bit (Suc ?n) (ucast d)))"
    by (subst pos, rule shl_nat) (use n in simp)
  have er: "erase pos (Stack sz d) = Inr (Stack (sz - 1) ?d')"
    by (simp add: erase_def Let_def s1 bind_def s2 s3 push_bit_1_minus_1 stack_data_mask_eq del: push_bit_of_1)
  have nz: "sz \<noteq> 0" using assms(3) by (auto simp: unat_gt_0 [symmetric])
  have us: "unat (sz - 1) = unat sz - 1" using nz by (rule unat_minus_one)
  have v': "valid (Stack (sz - 1) ?d')" using sz us by (simp add: valid_def stack_capacity_def)
  have "get_at (Stack (sz - 1) ?d') i = get_at (Stack sz d) (if i < ?n then i else i + 1)"
    if "i < unat sz - 1" for i
  proof -
    have "get_at (Stack (sz - 1) ?d') i = Inr (test_bit (Stack (sz - 1) ?d') i)"
      using that us by (intro get_at_valid [OF v']) (simp add: size_bvec_def)
    moreover have "get_at (Stack sz d) (if i < ?n then i else i + 1)
        = Inr (test_bit (Stack sz d) (if i < ?n then i else i + 1))"
      using that assms(3) by (intro get_at_valid [OF assms(1)]) (auto simp: size_bvec_def)
    ultimately show ?thesis
      using erase_stack_bits [OF n, of d i] by (simp add: test_bit_def)
  qed
  then show ?thesis using er v' us by (simp add: is_heap_def size_bvec_def)
qed

lemma and_mask_mod: "(k :: nat) AND (2 ^ n - 1) = k mod 2 ^ n"
proof -
  have "k AND (2 ^ n - 1) = k AND mask n" by (simp only: mask_eq_exp_minus_1)
  also have "\<dots> = take_bit n k" by (simp only: take_bit_eq_mask)
  also have "\<dots> = k mod 2 ^ n" by (simp only: take_bit_eq_mod)
  finally show ?thesis .
qed

lemma and_stack_size_mask: "(k :: nat) AND stack_size_mask = k mod 2 ^ 7"
  unfolding stack_size_mask_def by (rule and_mask_mod)

lemma and_heap_size_mask: "(k :: nat) AND heap_size_mask = k mod 2 ^ 35"
  unfolding heap_size_mask_def by (rule and_mask_mod)

lemma and_heap_capacity_mask: "(k :: nat) AND heap_capacity_mask = k mod 2 ^ 28"
  unfolding heap_capacity_mask_def heap_capacity_max_def by (rule and_mask_mod)

lemma to_size_nat: "0 \<le> i \<Longrightarrow> i < 2 ^ 64 \<Longrightarrow> to_size i = nat i"
  by (simp add: to_size_def)

lemma erase_range_stack_bits:
  assumes "s \<le> e" and "e \<le> 120"
  shows "bit (ucast ((push_bit s (drop_bit e (ucast d :: stack_data_type)) OR (ucast d AND mask s))
            AND mask 120) :: 120 word) i
     \<longleftrightarrow> (if i < s then bit (d :: 120 word) i else bit d (i + (e - s)))"
proof -
  have b: "bit d k \<Longrightarrow> k < 120" for k
    using bit_imp_le_length [of d k] by simp
  have "i - s + e = i + (e - s)" if "s \<le> i" using that assms(1) by simp
  then show ?thesis
    using assms b [of i] b [of "i + (e - s)"]
    by (auto simp: bit_ucast_iff bit_and_iff bit_or_iff bit_push_bit_iff bit_drop_bit_eq bit_mask_iff add.commute)
qed

lemma stack_size_bound: "unat (sz :: 7 word) < 2 ^ 7"
  using unsigned_less [of sz, where ?'a = nat] by simp

text \<open>
  The range erase of an inline vector yields \<open>b[0..first)\<close> followed by \<open>b[last..n)\<close>.
\<close>

lemma erase_range_inline:
  assumes "valid (Stack sz d)" and "0 \<le> first" and "first \<le> last'" and "last' \<le> int (unat sz)"
  shows "\<exists>v'. erase_range first last' (Stack sz d) = Inr v' \<and> \<not> is_heap v' \<and> valid v'
     \<and> size_bvec v' = unat sz - (nat last' - nat first)
     \<and> (\<forall>i < size_bvec v'. get_at v' i
           = get_at (Stack sz d) (if i < nat first then i else i + (nat last' - nat first)))"
proof -
  let ?s = "nat first" and ?e = "nat last'"
  let ?d' = "ucast ((push_bit ?s (drop_bit ?e (ucast d :: stack_data_type)) OR (ucast d AND mask ?s))
            AND mask 120) :: 120 word"
  let ?n = "unat sz - (?e - ?s)"
  from assms have sz: "unat sz \<le> 120" by (simp add: valid_def stack_capacity_def)
  have e1: "?e \<le> unat sz" using assms(4) by (simp add: nat_le_iff)
  have se: "?s \<le> ?e" "?e \<le> unat sz" "?e \<le> 120"
    using assms(3) e1 sz by simp_all
  have "int (unat sz) \<le> int 120" using sz by (simp only: of_nat_le_iff)
  then have lb: "last' \<le> 120" using assms(4) by simp
  have ts: "to_size first = ?s" using assms(2,3) lb by (intro to_size_nat) simp_all
  have te: "to_size last' = ?e" using assms(2,3) lb by (intro to_size_nat) simp_all
  have l0: "0 \<le> last'" using assms(2,3) by simp
  have fi: "first = int ?s" and li: "last' = int ?e" using assms(2) l0 by simp_all
  have s1: "shl (1 :: stack_data_type) first = Inr (push_bit ?s 1)"
    by (subst fi, rule shl_nat) (use se in simp)
  have s2: "shr (ucast d :: stack_data_type) last' = Inr (drop_bit ?e (ucast d))"
    by (subst li, rule shr_nat) (use se in simp)
  have s3: "shl (drop_bit ?e (ucast d :: stack_data_type)) first = Inr (push_bit ?s (drop_bit ?e (ucast d)))"
    by (subst fi, rule shl_nat) (use se in simp)
  have d1: "sub64 ?e ?s = ?e - ?s" using se by (intro sub64_le) simp_all
  have d2: "sub64 (unat sz) (?e - ?s) = ?n" using se sz by (intro sub64_le) simp_all
  have nb: "?n < 2 ^ 7" using sz by simp
  have un: "unat (of_nat (?n AND stack_size_mask) :: 7 word) = ?n"
    using nb by (simp add: and_stack_size_mask unat_of_nat)
  have er: "erase_range first last' (Stack sz d) = Inr (Stack (of_nat (?n AND stack_size_mask)) ?d')"
    using assms(2,4) l0
    by (simp add: erase_range_def Let_def ts te s1 s2 s3 d1 d2 bind_def push_bit_1_minus_1
        stack_data_mask_eq del: push_bit_of_1)
  have v': "valid (Stack (of_nat (?n AND stack_size_mask)) ?d')"
    unfolding valid_def using sz by (simp add: un stack_capacity_def)
  have "get_at (Stack (of_nat (?n AND stack_size_mask)) ?d') i
      = get_at (Stack sz d) (if i < ?s then i else i + (?e - ?s))"
    if "i < ?n" for i
  proof -
    have "get_at (Stack (of_nat (?n AND stack_size_mask)) ?d') i
        = Inr (test_bit (Stack (of_nat (?n AND stack_size_mask)) ?d') i)"
      using that by (intro get_at_valid [OF v']) (simp add: size_bvec_def un)
    moreover have "get_at (Stack sz d) (if i < ?s then i else i + (?e - ?s))
        = Inr (test_bit (Stack sz d) (if i < ?s then i else i + (?e - ?s)))"
    proof -
      from that se have "i + (?e - ?s) < unat sz" by linarith
      moreover from se have "i < ?s \<Longrightarrow> i < unat sz" by linarith
      ultimately have "(if i < ?s then i else i + (?e - ?s)) < size_bvec (Stack sz d)"
        by (simp add: size_bvec_def)
      then show ?thesis by (rule get_at_valid [OF assms(1)])
    qed
    ultimately show ?thesis
      using erase_range_stack_bits [OF se(1,3), of d i] by (simp add: test_bit_def)
  qed
  then show ?thesis using er v' un by (simp add: is_heap_def size_bvec_def)
qed

lemma end_pos_small:
  assumes "size_bvec c < 2 ^ 31"
  shows "end_pos c = int (size_bvec c)"
proof -
  have "signed_take_bit 31 (int (size_bvec c)) = int (size_bvec c)"
    using assms by (intro signed_take_bit_int_eq_self) simp_all
  then have "sint (word_of_nat (size_bvec c) :: 32 word) = int (size_bvec c)"
    by (simp add: signed_of_nat)
  then show ?thesis by (simp only: end_pos_def)
qed

lemma to_size_int:
  assumes "n < 2 ^ 64"
  shows "to_size (int n) = n"
proof -
  have "int n mod 2 ^ 64 = int (n mod 2 ^ 64)" by (simp add: zmod_int)
  also have "\<dots> = int n" using assms by simp
  finally show ?thesis by (simp only: to_size_def nat_int)
qed

lemma ucast_stack_data_id: "(ucast (ucast (d :: 120 word) :: stack_data_type) :: 120 word) = d"
  by (rule bit_word_eqI) (simp add: bit_ucast_iff)

text \<open>
  Copying an inline vector through \<open>assign(other.cbegin(), other.cend())\<close> reproduces it,
  and \<open>operator==\<close> of the two returns true.
\<close>

lemma copy_inline:
  assumes "valid (Stack sz d)"
  shows "copy (Stack sz d) = Inr (Stack sz d)
    \<and> operator_eq (Stack sz d) (Stack sz d) = Some (Inr True)"
proof -
  from assms have sz: "unat sz \<le> 120" by (simp add: valid_def stack_capacity_def)
  then have e: "end_pos (Stack sz d) = int (unat sz)"
    using end_pos_small [of "Stack sz d"] by (simp add: size_bvec_def)
  have ts: "to_size (int (unat sz)) = unat sz"
    using sz by (intro to_size_int) simp
  have s: "shr (ucast d :: stack_data_type) (int 0) = Inr (drop_bit 0 (ucast d))"
    by (intro shr_nat) simp
  have sm: "unat sz mod 2 ^ 7 = unat sz" using stack_size_bound [of sz] by simp
  have "copy (Stack sz d) = Inr (Stack (of_nat (unat sz AND stack_size_mask)) (ucast (ucast d :: stack_data_type)))"
    unfolding copy_def assign_def begin_pos_def e using s ts
    by (simp add: bind_def)
  also have "\<dots> = Inr (Stack sz d)"
    by (simp only: and_stack_size_mask sm) (simp add: ucast_stack_data_id)
  finally have c: "copy (Stack sz d) = Inr (Stack sz d)" .
  have "size_bvec (Stack sz d) < 2 ^ 32" using sz by (simp add: size_bvec_def)
  from operator_eq_total [OF assms assms this] c show ?thesis by simp
qed

lemma fill_words_eq:
  "words \<le> length p \<Longrightarrow>
   fill_words ii words f p =
     Inr (map (\<lambda>k. if ii \<le> k \<and> k < words then f else p ! k) [0..<length p])"
proof (induction ii words f p rule: fill_words.induct)
  case (1 ii words f p)
  show ?case
  proof (cases "ii < words")
    case True
    then have lt: "ii < length p" using 1(2) by simp
    have "fill_words ii words f p = fill_words (ii + 1) words f (p[ii := f])"
      using True lt by (subst fill_words.simps) (simp add: bind_def wr_def)
    also have "\<dots> = Inr (map (\<lambda>k. if ii + 1 \<le> k \<and> k < words then f else p[ii := f] ! k) [0..<length p])"
      using 1(1)[OF True, of "p[ii := f]"] True lt 1(2)
      by simp
    also have "\<dots> = Inr (map (\<lambda>k. if ii \<le> k \<and> k < words then f else p ! k) [0..<length p])"
      using True lt by (auto simp: nth_list_update)
    finally show ?thesis .
  next
    case False
    have "map (\<lambda>k. if ii \<le> k \<and> k < words then f else p ! k) [0..<length p] = p"
      using False by (intro nth_equalityI) auto
    then show ?thesis using False
      by (subst fill_words.simps) simp
  qed
qed

lemma fill_words_allocate:
  "fill_words 0 words f (allocate words) = Inr (replicate words f)"
proof -
  have "map (\<lambda>k. if 0 \<le> k \<and> k < words then f else allocate words ! k) [0..<length (allocate words)]
      = replicate words f"
    by (intro nth_equalityI) (simp_all add: allocate_def)
  then show ?thesis using fill_words_eq [of words "allocate words" 0 f]
    by (simp add: allocate_def)
qed

text \<open>
  From an empty inline vector, \<open>resize(n, value)\<close> with \<open>n\<close> up to the largest size whose
  word count fits the capacity field gives size \<open>n\<close> with every bit equal to \<open>value\<close>.
\<close>

lemma resize_from_empty:
  assumes "n \<le> 2 ^ 34 - 64"
  shows "\<exists>v'. resize n value (Stack 0 d) = Inr v' \<and> valid v' \<and> size_bvec v' = n
     \<and> (\<forall>i < n. get_at v' i = Inr value)"
proof (cases "n \<le> 120")
  case True
  let ?d' = "if 0 < n
    then ucast ((if value then ucast d OR push_bit 0 (mask 120) else ucast d AND NOT (push_bit 0 (mask 120)))
           AND (mask 120 :: stack_data_type)) else d"
  have un: "unat (of_nat (n AND stack_size_mask) :: 7 word) = n"
    using True by (simp add: and_stack_size_mask unat_of_nat)
  have r: "resize n value (Stack 0 d) = Inr (Stack (of_nat (n AND stack_size_mask)) ?d')"
    using True by (simp add: resize_def resize_stack_def stack_capacity_def stack_data_mask_eq Let_def)
  have v: "valid (Stack (of_nat (n AND stack_size_mask)) ?d')"
    unfolding valid_def using True by (simp add: un stack_capacity_def)
  have "get_at (Stack (of_nat (n AND stack_size_mask)) ?d') i = Inr value" if "i < n" for i
  proof -
    have i: "i < 120" using that True by simp
    have "bit ?d' i = value"
      using that i by (auto simp: bit_ucast_iff bit_and_iff bit_or_iff bit_not_iff bit_mask_iff)
    moreover have "get_at (Stack (of_nat (n AND stack_size_mask)) ?d') i
        = Inr (test_bit (Stack (of_nat (n AND stack_size_mask)) ?d') i)"
      using that by (intro get_at_valid [OF v]) (simp add: size_bvec_def un)
    ultimately show ?thesis by (simp add: test_bit_def)
  qed
  then show ?thesis using r v un by (simp add: size_bvec_def)
next
  case False
  let ?words = "(n + 63) div 64"
  let ?fill = "if value then block_mask else 0"
  let ?v = "Heap (of_nat (n AND heap_size_mask)) (of_nat (?words AND heap_capacity_mask)) (replicate ?words ?fill)"
  have n: "n < 2 ^ 34" using assms by simp
  have br: "block_round n = ?words" using n by (intro block_round_small) simp
  have w: "?words < 2 ^ 28" using assms by simp
  have un: "unat (of_nat (n AND heap_size_mask) :: 35 word) = n"
    using n by (simp add: and_heap_size_mask unat_of_nat)
  have uc: "unat (of_nat (?words AND heap_capacity_mask) :: 28 word) = ?words"
    using w by (simp add: and_heap_capacity_mask unat_of_nat)
  have r: "resize n value (Stack 0 d) = Inr ?v"
    using False
    by (simp add: resize_def grow_to_heap_def stack_capacity_def br Let_def bind_def block_digits_def
        fill_words_allocate)
  have v: "valid ?v"
    unfolding valid_def by (simp add: un uc block_digits_def)
  have "get_at ?v i = Inr value" if "i < n" for i
  proof -
    have "i div 64 < ?words" using that by simp
    then have "test_bit ?v i = value"
      by (simp add: test_bit_def block_digits_def block_mask_def)
    moreover have "get_at ?v i = Inr (test_bit ?v i)"
      using that by (intro get_at_valid [OF v]) (simp add: size_bvec_def un)
    ultimately show ?thesis by simp
  qed
  then show ?thesis using r v un by (simp add: size_bvec_def)
qed

lemma inline_cases:
  assumes "\<not> is_heap c"
  obtains sz d where "c = Stack sz d"
  using assms by (cases c) (simp_all add: is_heap_def)

text \<open>
  On an inline vector \<open>std::erase_if\<close> returns, with the number of erased bits, for every
  predicate: each \<open>erase\<close> shortens the vector by one.
\<close>

lemma erase_if_loop_inline:
  "valid c \<Longrightarrow> \<not> is_heap c \<Longrightarrow> 0 \<le> iter \<Longrightarrow> nat iter \<le> size_bvec c \<Longrightarrow>
   \<exists>c'. erase_if_loop pred c iter = Some (Inr c') \<and> valid c' \<and> \<not> is_heap c'
      \<and> size_bvec c' \<le> size_bvec c"
proof (induction "size_bvec c - nat iter" arbitrary: c iter)
  case 0
  from "0.prems"(2) obtain sz d where c: "c = Stack sz d" by (rule inline_cases)
  from "0.prems"(1) c have s: "size_bvec c \<le> 120"
    by (simp add: valid_def stack_capacity_def size_bvec_def)
  then have e: "end_pos c = int (size_bvec c)" by (intro end_pos_small) simp
  from 0 have "nat iter = size_bvec c" by simp
  then have "iter = end_pos c" using "0.prems"(3) e by simp
  then show ?case using "0.prems"(1,2) by (subst erase_if_loop.simps) simp
next
  case (Suc k)
  from Suc.prems(2) obtain sz d where c: "c = Stack sz d" by (rule inline_cases)
  from Suc.prems(1) c have s: "size_bvec c \<le> 120"
    by (simp add: valid_def stack_capacity_def size_bvec_def)
  then have e: "end_pos c = int (size_bvec c)" by (intro end_pos_small) simp
  from Suc.hyps(2) have lt: "nat iter < size_bvec c" by simp
  then have ne: "iter \<noteq> end_pos c" using e by simp
  have ts: "to_size iter = nat iter" using Suc.prems(3) lt s by (intro to_size_nat) simp_all
  have g: "get_at c (to_size iter) = Inr (test_bit c (nat iter))"
    unfolding ts using lt by (rule get_at_valid [OF Suc.prems(1)])
  show ?case
  proof (cases "pred (test_bit c (nat iter))")
    case True
    from erase_inline [of sz d iter] Suc.prems(1,3) lt c obtain c' where
      c': "erase iter c = Inr c'" "\<not> is_heap c'" "valid c'" "size_bvec c' = size_bvec c - 1"
      by (auto simp: size_bvec_def)
    have "k = size_bvec c' - nat iter" using Suc.hyps(2) c'(4) by simp
    moreover have "nat iter \<le> size_bvec c'" using lt c'(4) by simp
    ultimately obtain c'' where
      c'': "erase_if_loop pred c' iter = Some (Inr c'')" "valid c''" "\<not> is_heap c''"
        "size_bvec c'' \<le> size_bvec c'"
      using Suc.hyps(1) [of c' iter] c'(2,3) Suc.prems(3) by blast
    have "erase_if_loop pred c iter = erase_if_loop pred c' iter"
      using ne g True c'(1) by (subst erase_if_loop.simps) simp
    then show ?thesis using c'' c'(4) by auto
  next
    case False
    have "k = size_bvec c - nat (iter + 1)" using Suc.hyps(2) Suc.prems(3) by simp
    moreover have "nat (iter + 1) \<le> size_bvec c" using lt Suc.prems(3) by simp
    ultimately obtain c'' where
      c'': "erase_if_loop pred c (iter + 1) = Some (Inr c'')" "valid c''" "\<not> is_heap c''"
        "size_bvec c'' \<le> size_bvec c"
      using Suc.hyps(1) [of c "iter + 1"] Suc.prems(1,2,3) by force
    have "erase_if_loop pred c iter = erase_if_loop pred c (iter + 1)"
      using ne g False by (subst erase_if_loop.simps) simp
    then show ?thesis using c'' by auto
  qed
qed

lemma std_erase_if_inline:
  assumes "valid c" and "\<not> is_heap c"
  shows "\<exists>c'. std_erase_if pred c = Some (Inr (c', size_bvec c - size_bvec c')) \<and> valid c' \<and> \<not> is_heap c'"
proof -
  from erase_if_loop_inline [OF assms, of 0 pred] obtain c' where
    c': "erase_if_loop pred c 0 = Some (Inr c')" "valid c'" "\<not> is_heap c'" "size_bvec c' \<le> size_bvec c"
    by auto
  from assms obtain sz d where c: "c = Stack sz d" by (auto elim: inline_cases)
  from assms(1) c have "size_bvec c < 2 ^ 64"
    by (simp add: valid_def stack_capacity_def size_bvec_def)
  with c'(4) have "sub64 (size_bvec c) (size_bvec c') = size_bvec c - size_bvec c'"
    by (intro sub64_le)
  with c' show ?thesis by (simp add: std_erase_if_def begin_pos_def)
qed

end
